theory Spec2Isabelle
  imports Main "HOL-Library.Sublist"
begin

section \<open>Python values used by the three programs\<close>

text \<open>
  A Python \<open>bytes\<close> object is a \<open>string\<close> (a list of 8-bit characters), so that the
  literal \<open>b"__#"\<close> is \<open>''__#''\<close>.  A Python \<open>str\<close> is a list of Unicode code points.
\<close>

type_synonym bytes = string
type_synonym ustr = "nat list"

definition ascii :: "string \<Rightarrow> bool" where
  "ascii s = list_all (\<lambda>c. of_char c < (128::nat)) s"

definition u :: "string \<Rightarrow> ustr" where
  \<comment> \<open>an ASCII \<open>str\<close> literal\<close>
  "u s = map of_char s"

fun contains :: "'a list \<Rightarrow> 'a list \<Rightarrow> bool" where
  \<comment> \<open>\<open>contains sub s\<close> is Python's \<open>sub in s\<close> on \<open>bytes\<close> and on \<open>str\<close>\<close>
  "contains sub [] = (sub = [])"
| "contains sub (x # xs) = (prefix sub (x # xs) \<or> contains sub xs)"

fun split_from :: "'a list \<Rightarrow> 'a list \<Rightarrow> 'a list \<Rightarrow> 'a list list" where
  \<comment> \<open>the scan of \<open>s.split(sep)\<close>: \<open>cur\<close> is the current piece, reversed\<close>
  "split_from sep cur [] = [rev cur]"
| "split_from sep cur (x # xs) =
     (if prefix sep (x # xs) then rev cur # split_from sep [] (drop (length sep - 1) xs)
      else split_from sep (x # cur) xs)"

definition split_py :: "'a list \<Rightarrow> 'a list \<Rightarrow> 'a list list" where
  \<comment> \<open>\<open>s.split(sep)\<close>; every separator in the programs is a non-empty literal\<close>
  "split_py sep s = split_from sep [] s"

definition index_py :: "'a list \<Rightarrow> nat \<Rightarrow> 'a option" where
  \<comment> \<open>\<open>xs[i]\<close> for \<open>i \<ge> 0\<close>; \<open>None\<close> is the IndexError\<close>
  "index_py xs i = (if i < length xs then Some (xs ! i) else None)"

definition field_after :: "'a list \<Rightarrow> 'a list \<Rightarrow> 'a list \<Rightarrow> 'a list option" where
  \<comment> \<open>\<open>s.split(mark)[1].split(stop)[0]\<close>\<close>
  "field_after mark stop s =
     (case index_py (split_py mark s) 1 of None \<Rightarrow> None
      | Some r \<Rightarrow> index_py (split_py stop r) 0)"

definition is_space :: "nat \<Rightarrow> bool" where
  \<comment> \<open>the code points that \<open>str.strip()\<close> removes\<close>
  "is_space c =
     (9 \<le> c \<and> c \<le> 13 \<or> 28 \<le> c \<and> c \<le> 32 \<or> c = 133 \<or> c = 160 \<or> c = 5760
      \<or> 8192 \<le> c \<and> c \<le> 8202 \<or> c = 8232 \<or> c = 8233 \<or> c = 8239 \<or> c = 8287 \<or> c = 12288)"

definition strip_py :: "ustr \<Rightarrow> ustr" where
  \<comment> \<open>\<open>s.strip()\<close>\<close>
  "strip_py s = rev (dropWhile is_space (rev (dropWhile is_space s)))"

subsection \<open>UTF-8\<close>

definition cont :: "nat \<Rightarrow> bool" where
  "cont b = (128 \<le> b \<and> b < 192)"

fun utf8_first :: "nat list \<Rightarrow> nat option \<times> nat" where
  \<comment> \<open>the first code point of a byte sequence and the number of bytes it takes, or
      \<open>None\<close> and the length of the ill-formed run that the error handler replaces\<close>
  "utf8_first [] = (None, 0)"
| "utf8_first (b0 # bs) =
     (if b0 < 128 then (Some b0, 1)
      else if b0 < 194 then (None, 1)
      else if b0 < 224 then
        (case bs of [] \<Rightarrow> (None, 1)
         | b1 # _ \<Rightarrow> if cont b1 then (Some ((b0 - 192) * 64 + (b1 - 128)), 2) else (None, 1))
      else if b0 < 240 then
        (case bs of [] \<Rightarrow> (None, 1)
         | b1 # bs1 \<Rightarrow>
             if \<not> cont b1 \<or> (if b1 < 160 then b0 = 224 else b0 = 237) then (None, 1)
             else (case bs1 of [] \<Rightarrow> (None, 2)
                   | b2 # _ \<Rightarrow>
                       if cont b2
                       then (Some ((b0 - 224) * 4096 + (b1 - 128) * 64 + (b2 - 128)), 3)
                       else (None, 2)))
      else if b0 < 245 then
        (case bs of [] \<Rightarrow> (None, 1)
         | b1 # bs1 \<Rightarrow>
             if \<not> cont b1 \<or> (if b1 < 144 then b0 = 240 else b0 = 244) then (None, 1)
             else (case bs1 of [] \<Rightarrow> (None, 2)
                   | b2 # bs2 \<Rightarrow>
                       if \<not> cont b2 then (None, 2)
                       else (case bs2 of [] \<Rightarrow> (None, 3)
                             | b3 # _ \<Rightarrow>
                                 if cont b3
                                 then (Some ((b0 - 240) * 262144 + (b1 - 128) * 4096
                                             + (b2 - 128) * 64 + (b3 - 128)), 4)
                                 else (None, 3))))
      else (None, 1))"

fun utf8_decode :: "ustr \<Rightarrow> nat list \<Rightarrow> ustr" where
  \<comment> \<open>\<open>r\<close> is what an ill-formed run becomes: U+FFFD for \<open>errors='replace'\<close>, nothing
      for \<open>errors='ignore'\<close>\<close>
  "utf8_decode r [] = []"
| "utf8_decode r (b # bs) =
     (case utf8_first (b # bs) of
        (c, n) \<Rightarrow> (case c of None \<Rightarrow> r | Some cp \<Rightarrow> [cp]) @ utf8_decode r (drop (n - 1) bs))"

definition decode_replace :: "bytes \<Rightarrow> ustr" where
  \<comment> \<open>\<open>data.decode(errors='replace')\<close>\<close>
  "decode_replace data = utf8_decode [65533] (map of_char data)"

definition decode_ignore :: "bytes \<Rightarrow> ustr" where
  \<comment> \<open>\<open>data.decode('utf-8', errors='ignore')\<close>\<close>
  "decode_ignore data = utf8_decode [] (map of_char data)"

definition utf8_char :: "nat \<Rightarrow> bytes option" where
  \<comment> \<open>one code point; a lone surrogate is the UnicodeEncodeError\<close>
  "utf8_char cp =
     (if cp < 128 then Some [char_of cp]
      else if cp < 2048 then Some [char_of (192 + cp div 64), char_of (128 + cp mod 64)]
      else if 55296 \<le> cp \<and> cp < 57344 then None
      else if cp < 65536 then
        Some [char_of (224 + cp div 4096), char_of (128 + cp div 64 mod 64),
              char_of (128 + cp mod 64)]
      else if cp < 1114112 then
        Some [char_of (240 + cp div 262144), char_of (128 + cp div 4096 mod 64),
              char_of (128 + cp div 64 mod 64), char_of (128 + cp mod 64)]
      else None)"

fun encode :: "ustr \<Rightarrow> bytes option" where
  \<comment> \<open>\<open>s.encode()\<close>\<close>
  "encode [] = Some []"
| "encode (c # cs) =
     (case utf8_char c of None \<Rightarrow> None
      | Some b \<Rightarrow> (case encode cs of None \<Rightarrow> None | Some bs \<Rightarrow> Some (b @ bs)))"

definition encode_replace :: "ustr \<Rightarrow> bytes" where
  \<comment> \<open>\<open>s.encode('utf-8', errors='replace')\<close>: what cannot be encoded becomes \<open>?\<close>\<close>
  "encode_replace s = concat (map (\<lambda>c. case utf8_char c of None \<Rightarrow> ''?'' | Some b \<Rightarrow> b) s)"

subsection \<open>The two regular expressions\<close>

definition tail_no_hash :: "bytes \<Rightarrow> nat option" where
  \<comment> \<open>the length of the match of \<open>[^#]*#__\<close> at the start of a byte sequence\<close>
  "tail_no_hash xs =
     (if prefix ''#__'' (dropWhile (\<lambda>c. c \<noteq> CHR ''#'') xs)
      then Some (length (takeWhile (\<lambda>c. c \<noteq> CHR ''#'') xs) + 3) else None)"

fun tail_lazy :: "ustr \<Rightarrow> nat option" where
  \<comment> \<open>the length of the match of \<open>.*?#__\<close> at the start of a \<open>str\<close>; the dot does not match
      a newline\<close>
  "tail_lazy [] = None"
| "tail_lazy (c # cs) =
     (if prefix (u ''#__'') (c # cs) then Some 3
      else if c = 10 then None
      else (case tail_lazy cs of None \<Rightarrow> None | Some n \<Rightarrow> Some (Suc n)))"

fun re_sub :: "'a list \<Rightarrow> ('a list \<Rightarrow> nat option) \<Rightarrow> 'a list \<Rightarrow> 'a list" where
  \<comment> \<open>\<open>re.sub(pattern, "", s)\<close> for a pattern that is a literal \<open>opener\<close> followed by \<open>tail\<close>:
      every leftmost match is removed\<close>
  "re_sub opener tail [] = []"
| "re_sub opener tail (c # cs) =
     (if prefix opener (c # cs) then
        (case tail (drop (length opener) (c # cs)) of
           Some n \<Rightarrow> re_sub opener tail (drop (length opener - 1 + n) cs)
         | None \<Rightarrow> c # re_sub opener tail cs)
      else c # re_sub opener tail cs)"

definition sub_frames_bytes :: "bytes \<Rightarrow> bytes" where
  \<comment> \<open>\<open>re.sub(b"__#[^#]*#__", b"", data)\<close>\<close>
  "sub_frames_bytes data = re_sub ''__#'' tail_no_hash data"

definition sub_frames_str :: "ustr \<Rightarrow> ustr" where
  \<comment> \<open>\<open>re.sub(r'__#.*?#__', '', decoded_part)\<close>\<close>
  "sub_frames_str t = re_sub (u ''__#'') tail_lazy t"

subsection \<open>Formatting an integer in an f-string\<close>

definition digit_char :: "nat \<Rightarrow> char" where
  "digit_char d = ''0123456789'' ! d"

fun str_nat :: "nat \<Rightarrow> string" where
  "str_nat n = (if n < 10 then [digit_char n] else str_nat (n div 10) @ [digit_char (n mod 10)])"

declare str_nat.simps [simp del]

definition str_int :: "int \<Rightarrow> string" where
  \<comment> \<open>the characters of \<open>str(i)\<close>, as an f-string inserts them\<close>
  "str_int i = (if i < 0 then CHR ''-'' # str_nat (nat (- i)) else str_nat (nat i))"


subsection \<open>Reading an integer\<close>

text \<open>
  \<open>int(s)\<close> for a \<open>str\<close>, as CPython 3.11 reads it in base ten: white space on both
  sides, one sign, then decimal digits of any script (the table is that of Unicode 14.0)
  with single underscores between them, 4300 digits at most (the default of
  \<open>sys.set_int_max_str_digits\<close>).  \<open>None\<close> is the ValueError.
\<close>

definition decimal_zeros :: "nat list" where
  \<comment> \<open>the digits zero of the scripts that have decimal digits; the ten digits of a
      script follow each other\<close>
  "decimal_zeros =
     [48, 1632, 1776, 1984, 2406, 2534, 2662, 2790, 2918, 3046, 3174, 3302, 3430, 3558,
      3664, 3792, 3872, 4160, 4240, 6112, 6160, 6470, 6608, 6784, 6800, 6992, 7088, 7232,
      7248, 42528, 43216, 43264, 43472, 43504, 43600, 44016, 65296, 66720, 68912, 69734,
      69872, 69942, 70096, 70384, 70736, 70864, 71248, 71360, 71472, 71904, 72016, 72784,
      73040, 73120, 92768, 92864, 93008, 120782, 120792, 120802, 120812, 120822, 123200,
      123632, 125264, 130032]"

definition to_decimal :: "nat \<Rightarrow> nat option" where
  \<comment> \<open>the value of a decimal digit\<close>
  "to_decimal c =
     (case find (\<lambda>z. z \<le> c \<and> c < z + 10) decimal_zeros of None \<Rightarrow> None
      | Some z \<Rightarrow> Some (c - z))"

definition int_space :: "nat \<Rightarrow> bool" where
  \<comment> \<open>the white space that \<open>int\<close> skips: that of \<open>str.strip()\<close> without the four
      separators U+001C to U+001F\<close>
  "int_space c = (is_space c \<and> \<not> (28 \<le> c \<and> c \<le> 31))"

definition int_body :: "nat \<Rightarrow> bool" where
  \<comment> \<open>a digit or an underscore\<close>
  "int_body c = (c = 95 \<or> to_decimal c \<noteq> None)"

definition int_value :: "ustr \<Rightarrow> nat" where
  \<comment> \<open>the number that a sequence of digits denotes\<close>
  "int_value digits =
     foldl (\<lambda>n c. 10 * n + (case to_decimal c of None \<Rightarrow> 0 | Some d \<Rightarrow> d)) 0 digits"

definition int_unsigned :: "ustr \<Rightarrow> nat option" where
  \<comment> \<open>what follows the sign: digits, with no underscore at either end and no two in a
      row, then white space to the end\<close>
  "int_unsigned s =
     (let body = takeWhile int_body s;
          rest = dropWhile int_body s;
          digits = filter (\<lambda>c. c \<noteq> 95) body
      in if body = [] \<or> hd body = 95 \<or> last body = 95 \<or> contains [95, 95] body
            \<or> 4300 < length digits \<or> dropWhile int_space rest \<noteq> []
         then None
         else Some (int_value digits))"

definition int_py :: "ustr \<Rightarrow> int option" where
  \<comment> \<open>\<open>int(s)\<close>\<close>
  "int_py s =
     (case dropWhile int_space s of [] \<Rightarrow> None
      | c # cs \<Rightarrow>
          if c = 45 then map_option (\<lambda>n. - int n) (int_unsigned cs)
          else if c = 43 then map_option int (int_unsigned cs)
          else map_option int (int_unsigned (c # cs)))"

section \<open>Shared protocol constants and command-line arguments\<close>

definition ASK_CMD :: bytes where "ASK_CMD = ''__#ASK_COM_PARAMS#__''"
definition DISCONNECT_CMD :: bytes where "DISCONNECT_CMD = ''__#DISCONNECT#__''"
definition KEEPALIVE_CMD :: bytes where "KEEPALIVE_CMD = ''__#KEEPALIVE#__''"
definition GETVER_CMD :: bytes where "GETVER_CMD = ''__#GETVER#__''"
definition GET_KA_TIMEOUT_CMD :: bytes where "GET_KA_TIMEOUT_CMD = ''__#GET_KA_TIMEOUT#__''"
definition MY_KA_TIMEOUT_CMD :: bytes where "MY_KA_TIMEOUT_CMD = ''__#MY_KA_TIMEOUT_''"
definition BAD_PWD_MSG :: bytes where "BAD_PWD_MSG = ''__#BADPWD#__''"

text \<open>
  The \<open>argparse\<close> namespace, with the fields that the modelled code reads.  In the server
  \<open>comport\<close> is the value of \<open>args.comport\<close> while a session runs (with \<open>--namedpipe\<close> the
  server has replaced it by \<open>PIPE:<name>\<close> when it opened the pipe).
\<close>

record args =
  pwd :: "ustr option"
  comport :: ustr
  namedpipe :: "ustr option"
  baud :: int
  line :: ustr
  keepalive :: int
  secauto :: bool
  sec :: "ustr option"
  debug :: bool

definition truthy :: "ustr option \<Rightarrow> bool" where
  \<comment> \<open>the truth value of an optional \<open>str\<close>: \<open>None\<close> and \<open>""\<close> are false\<close>
  "truthy x = (case x of None \<Rightarrow> False | Some s \<Rightarrow> s \<noteq> [])"

datatype log_event =
    Received_KEEPALIVE
  | Client_Identified ustr ustr
  | Received_Remote_Params ustr
  | Password_Correct
  | Invalid_Password
  | Raw_data_rejected
  | Session_ended nat nat
  | Server_disconnected
  | Disconnect_signal
  | Rejected_password
  | Server_version ustr
  | KeepAlive_OK int
  | KeepAlive_RISK int
  | Remote_Params ustr
  | Debug_RX string
  | Debug_write_error

text \<open>
  What a program does to the outside, in the order in which it does it: \<open>sendall\<close> on the
  connection, a read from and a write to the serial endpoint (or, in the client, a write to
  the terminal), a log line, \<open>time.sleep\<close> (in milliseconds) and \<open>close\<close> of the connection.
  Calls on an open connection, on the serial endpoint and to the log are taken to succeed;
  \<open>sendall\<close> on a connection that the program has closed raises.
\<close>

datatype effect =
    Send bytes
  | SerRead bytes
  | SerWrite bytes
  | Stdout ustr
  | Log log_event
  | Sleep nat
  | Close

record io_state =
  trace :: "effect list"

definition emit :: "effect \<Rightarrow> 'a io_state_scheme \<Rightarrow> 'a io_state_scheme" where
  "emit e s = s\<lparr>trace := trace s @ [e]\<rparr>"

definition log_msg :: "args \<Rightarrow> log_event \<Rightarrow> bool \<Rightarrow> 'a io_state_scheme \<Rightarrow> 'a io_state_scheme" where
  \<comment> \<open>\<open>log_msg\<close> of the server and \<open>log\<close> of the bridge: a debug line is dropped without
      \<open>--debug\<close>\<close>
  "log_msg a ev is_debug s = (if is_debug \<and> \<not> debug a then s else emit (Log ev) s)"

section \<open>The server: the sessions of \<open>main\<close>\<close>

text \<open>
  A session has two threads, the receive loop of \<open>main\<close> and the sender
  \<open>serial_to_socket\<close>; the field \<open>authorized\<close> is \<open>b_state['authorized']\<close>, which the two
  share.  Nothing stops the sender when its session ends by \<open>break\<close>: it runs on with
  the \<open>b_state\<close> and the connection of that session while \<open>main\<close> serves the next peer.
  \<open>old_threads\<close> holds \<open>b_state['authorized']\<close> of every such sender.  The counters \<open>stats\<close>
  and \<open>session_stats\<close> are attributes of the one global \<open>state\<close>, read anew on every pass,
  so that every sender adds to the counters of the session in progress.
\<close>

definition SRV_VERSION :: ustr where "SRV_VERSION = u ''0.0.53''"

record srv_state = io_state +
  authorized :: bool
  packet_buffer :: bytes
  client_type :: ustr
  client_ver :: ustr
  remote_params :: ustr
  stats_in :: nat
  stats_out :: nat
  session_in :: nat
  session_out :: nat
  disconnect_requested :: bool
  running :: bool
  old_threads :: "bool list"

definition srv_params :: "args \<Rightarrow> ustr" where
  \<comment> \<open>\<open>f"__#COM_PARAMS_{state.args.comport} {state.args.baud} {state.args.line}#__"\<close>\<close>
  "srv_params a =
     u ''__#COM_PARAMS_'' @ comport a @ u '' '' @ u (str_int (baud a)) @ u '' '' @ line a @ u ''#__''"

definition send_params_and_ask :: "args \<Rightarrow> srv_state \<Rightarrow> srv_state option" where
  \<comment> \<open>\<open>conn.sendall(srv_params.encode()); conn.sendall(ASK_CMD)\<close>; \<open>None\<close> when \<open>encode\<close> raises\<close>
  "send_params_and_ask a s =
     (case encode (srv_params a) of None \<Rightarrow> None
      | Some b \<Rightarrow> Some (emit (Send ASK_CMD) (emit (Send b) s)))"

definition ver_field :: "ustr \<Rightarrow> ustr option" where
  \<comment> \<open>\<open>part.split("VER_")[1].split('#')[0]\<close>\<close>
  "ver_field part = field_after (u ''VER_'') (u ''#'') part"

fun ver_loop :: "args \<Rightarrow> ustr list \<Rightarrow> srv_state \<Rightarrow> srv_state" where
  \<comment> \<open>the \<open>for part in decoded_str.split('__#')\<close> loop; an exception leaves the loop and is
      swallowed by \<open>except: pass\<close>\<close>
  "ver_loop a [] s = s"
| "ver_loop a (part # parts) s =
     (if contains (u ''BR_VER_'') part \<or> contains (u ''CL_VER_'') part then
        (let s1 = s\<lparr>client_type := (if contains (u ''CL_VER'') part then u ''CL'' else u ''BR'')\<rparr>
         in case ver_field part of None \<Rightarrow> s1
            | Some v \<Rightarrow>
                (let s2 = log_msg a (Client_Identified (client_type s1) v) False
                            (s1\<lparr>client_ver := v\<rparr>)
                 in if \<not> truthy (pwd a) then
                      (let s3 = s2\<lparr>authorized := True\<rparr>
                       in if client_type s3 = u ''BR'' then
                            (case send_params_and_ask a s3 of None \<Rightarrow> s3
                             | Some s4 \<Rightarrow> ver_loop a parts s4)
                          else ver_loop a parts s3)
                    else ver_loop a parts s2))
      else ver_loop a parts s)"

definition on_keepalive :: "args \<Rightarrow> bytes \<Rightarrow> srv_state \<Rightarrow> srv_state" where
  "on_keepalive a data s =
     (if contains KEEPALIVE_CMD data then log_msg a Received_KEEPALIVE True s else s)"

definition on_version :: "args \<Rightarrow> bytes \<Rightarrow> ustr \<Rightarrow> srv_state \<Rightarrow> srv_state" where
  "on_version a data decoded_str s =
     (if contains ''_VER_'' data then ver_loop a (split_py (u ''__#'') decoded_str) s else s)"

definition on_getver :: "bytes \<Rightarrow> srv_state \<Rightarrow> srv_state" where
  "on_getver data s =
     (if contains GETVER_CMD data
      then (case encode (u ''__#SRV_VER_'' @ SRV_VERSION @ u ''#__'') of
              None \<Rightarrow> s\<lparr>running := False\<rparr> | Some b \<Rightarrow> emit (Send b) s)
      else s)"

definition on_get_ka_timeout :: "args \<Rightarrow> bytes \<Rightarrow> srv_state \<Rightarrow> srv_state" where
  "on_get_ka_timeout a data s =
     (if contains GET_KA_TIMEOUT_CMD data
      then (case encode (u ''__#MY_KA_TIMEOUT_'' @ u (str_int (keepalive a)) @ u ''#__'') of
              None \<Rightarrow> s\<lparr>running := False\<rparr> | Some b \<Rightarrow> emit (Send b) s)
      else s)"

definition on_ask :: "args \<Rightarrow> bytes \<Rightarrow> srv_state \<Rightarrow> srv_state" where
  \<comment> \<open>here \<open>encode\<close> is outside every inner \<open>try\<close>: if it raises, the outer \<open>except: break\<close>
      leaves the receive loop\<close>
  "on_ask a data s =
     (if contains ASK_CMD data
      then (case encode (srv_params a) of
              None \<Rightarrow> s\<lparr>running := False\<rparr> | Some b \<Rightarrow> emit (Send b) s)
      else s)"

definition on_com_params :: "args \<Rightarrow> bytes \<Rightarrow> ustr \<Rightarrow> srv_state \<Rightarrow> srv_state" where
  "on_com_params a data decoded_str s =
     (if contains ''__#COM_PARAMS_'' data then
        (case field_after (u ''__#COM_PARAMS_'') (u ''#__'') decoded_str of None \<Rightarrow> s
         | Some param_content \<Rightarrow>
             (let s1 = s\<lparr>remote_params := strip_py param_content\<rparr>
              in log_msg a (Received_Remote_Params (remote_params s1)) True s1))
      else s)"

definition received_pwd :: "ustr \<Rightarrow> ustr option" where
  \<comment> \<open>\<open>decoded_str.split("__#PWD_")[1].split("#")[0]\<close>\<close>
  "received_pwd decoded_str = field_after (u ''__#PWD_'') (u ''#'') decoded_str"

definition on_pwd :: "args \<Rightarrow> bytes \<Rightarrow> ustr \<Rightarrow> srv_state \<Rightarrow> srv_state" where
  "on_pwd a data decoded_str s =
     (if contains ''__#PWD_'' data then
        (case received_pwd decoded_str of None \<Rightarrow> s
         | Some x \<Rightarrow>
             if Some x = pwd a then
               (let s1 = log_msg a Password_Correct False (s\<lparr>authorized := True\<rparr>)
                in if client_type s1 = u ''BR'' then
                     (case send_params_and_ask a s1 of None \<Rightarrow> s1 | Some s2 \<Rightarrow> s2)
                   else s1)
             else (emit (Sleep 500) (emit (Send BAD_PWD_MSG)
                     (log_msg a Invalid_Password False s)))\<lparr>running := False\<rparr>)
      else s)"

definition on_disconnect :: "bytes \<Rightarrow> srv_state \<Rightarrow> srv_state" where
  "on_disconnect data s = (if contains DISCONNECT_CMD data then s\<lparr>running := False\<rparr> else s)"

fun run_handlers :: "(srv_state \<Rightarrow> srv_state) list \<Rightarrow> srv_state \<Rightarrow> srv_state" where
  \<comment> \<open>statements in sequence; once the loop has been left (\<open>running\<close> false) the rest is
      skipped\<close>
  "run_handlers [] s = s"
| "run_handlers (h # hs) s = (if running s then run_handlers hs (h s) else s)"

definition control_chunk :: "args \<Rightarrow> bytes \<Rightarrow> srv_state \<Rightarrow> srv_state" where
  \<comment> \<open>the branch \<open>if b"__#" in data\<close>, once \<open>b"#__"\<close> is in \<open>data\<close> too\<close>
  "control_chunk a data s =
     (let decoded_str = decode_replace data
      in run_handlers
           [on_keepalive a data, on_version a data decoded_str, on_getver data,
            on_get_ka_timeout a data, on_ask a data, on_com_params a data decoded_str,
            on_pwd a data decoded_str, on_disconnect data] s)"

definition data_chunk :: "args \<Rightarrow> bytes \<Rightarrow> srv_state \<Rightarrow> srv_state" where
  \<comment> \<open>the \<open>else\<close> branch: no \<open>b"__#"\<close> in \<open>data\<close>\<close>
  "data_chunk a data s =
     (if \<not> authorized s \<and> truthy (pwd a) then
        (if length data < 20 \<and> packet_buffer s = [] then s\<lparr>packet_buffer := data\<rparr>
         else (log_msg a Raw_data_rejected False s)\<lparr>running := False\<rparr>)
      else emit (SerWrite data)
             (s\<lparr>stats_in := stats_in s + length data,
                session_in := session_in s + length data\<rparr>))"

definition srv_recv :: "args \<Rightarrow> bytes \<Rightarrow> srv_state \<Rightarrow> srv_state" where
  \<comment> \<open>one pass of the receive loop with \<open>conn.recv\<close> returning \<open>chunk\<close>\<close>
  "srv_recv a chunk s =
     (if chunk = [] then s\<lparr>running := False\<rparr>
      else
        (let data = (if packet_buffer s \<noteq> [] then packet_buffer s @ chunk else chunk);
             s0 = (if packet_buffer s \<noteq> [] then s\<lparr>packet_buffer := []\<rparr> else s)
         in if contains ''__#'' data then
              (if \<not> contains ''#__'' data then s0\<lparr>packet_buffer := data\<rparr>
               else control_chunk a data s0)
            else data_chunk a data s0))"

definition serial_to_socket :: "bytes \<Rightarrow> srv_state \<Rightarrow> srv_state" where
  \<comment> \<open>one pass of the sender thread with \<open>data\<close> waiting on the serial endpoint\<close>
  "serial_to_socket data s =
     (if \<not> authorized s then s
      else if data = [] then s
      else emit (Send data)
             ((emit (SerRead data) s)\<lparr>stats_out := stats_out s + length data,
                                      session_out := session_out s + length data\<rparr>))"

definition old_serial_to_socket :: "nat \<Rightarrow> bytes \<Rightarrow> srv_state \<Rightarrow> srv_state" where
  \<comment> \<open>one pass of the sender thread number \<open>i\<close> among those left by earlier sessions, with
      \<open>data\<close> waiting on the serial endpoint: it reads and counts as every sender does, then
      \<open>client_conn.sendall\<close> raises, because \<open>main\<close> has closed that connection, and
      \<open>except: break\<close> ends the thread\<close>
  "old_serial_to_socket i data s =
     (if i < length (old_threads s) then
        (if \<not> old_threads s ! i then s
         else if data = [] then s
         else (emit (SerRead data) s)\<lparr>stats_out := stats_out s + length data,
                                       session_out := session_out s + length data,
                                       old_threads := take i (old_threads s)
                                                      @ drop (Suc i) (old_threads s)\<rparr>)
      else s)"

datatype srv_event =
    NetRecv bytes | SerialWaiting bytes | CtrlC | OldSerialWaiting nat bytes

fun srv_step :: "args \<Rightarrow> srv_state \<Rightarrow> srv_event \<Rightarrow> srv_state" where
  \<comment> \<open>all the loops run \<open>while ... not state.disconnect_requested\<close>; the receive loop has
      also ended once it was left by \<open>break\<close>\<close>
  "srv_step a s (NetRecv chunk) =
     (if running s \<and> \<not> disconnect_requested s then srv_recv a chunk s else s)"
| "srv_step a s (SerialWaiting data) =
     (if \<not> disconnect_requested s then serial_to_socket data s else s)"
| "srv_step a s CtrlC = s\<lparr>disconnect_requested := True\<rparr>"
| "srv_step a s (OldSerialWaiting i data) =
     (if \<not> disconnect_requested s then old_serial_to_socket i data s else s)"

definition srv_accept :: "args \<Rightarrow> nat \<Rightarrow> nat \<Rightarrow> srv_state" where
  \<comment> \<open>the state when the receive loop of a session starts and no sender of an earlier
      session is running; the two numbers are the totals in \<open>state.stats\<close>\<close>
  "srv_accept a total_in total_out =
     \<lparr>trace = [Send GETVER_CMD, Send GET_KA_TIMEOUT_CMD],
      authorized = \<not> truthy (pwd a), packet_buffer = [], client_type = u ''??'',
      client_ver = [], remote_params = u ''?? ?? ??'', stats_in = total_in,
      stats_out = total_out, session_in = 0, session_out = 0,
      disconnect_requested = False, running = True, old_threads = []\<rparr>"

definition srv_run :: "args \<Rightarrow> srv_event list \<Rightarrow> srv_state \<Rightarrow> srv_state" where
  "srv_run a evs s = foldl (srv_step a) s evs"

definition srv_close :: "args \<Rightarrow> srv_state \<Rightarrow> srv_state" where
  \<comment> \<open>the code after the receive loop\<close>
  "srv_close a s =
     (let s1 = (if disconnect_requested s
                then emit (Sleep 200) (emit (Send DISCONNECT_CMD) s) else s)
      in emit Close (log_msg a (Session_ended (session_in s1) (session_out s1)) False s1))"

definition srv_next :: "args \<Rightarrow> srv_state \<Rightarrow> srv_state" where
  \<comment> \<open>from the state in which a session was closed to the state in which the receive loop
      of the next session starts: the assignments at the top of the outer loop, \<open>accept\<close>,
      the two queries, a new \<open>b_state\<close> and a new sender (the log lines of this phase are
      not recorded, as in \<open>srv_accept\<close>).  The sender of the session that
      was closed runs on, unless \<open>disconnect_requested\<close> was set: that flag stays set through
      the \<open>time.sleep(0.2)\<close> before the close, and every sender looks at it at least every
      10 ms\<close>
  "srv_next a s =
     s\<lparr>trace := trace s @ [Send GETVER_CMD, Send GET_KA_TIMEOUT_CMD],
       authorized := \<not> truthy (pwd a), packet_buffer := [], client_type := u ''??'',
       client_ver := [], remote_params := u ''?? ?? ??'', session_in := 0, session_out := 0,
       disconnect_requested := False, running := True,
       old_threads := (if disconnect_requested s then [] else old_threads s @ [authorized s])\<rparr>"


section \<open>The bridge: \<open>SerialBridgeNode.run\<close>\<close>

definition BR_VERSION :: ustr where "BR_VERSION = u ''0.0.70''"

definition id_msg :: ustr where
  \<comment> \<open>\<open>f"__#BR_VER_{__CODE_VERSION__}#__"\<close>\<close>
  "id_msg = u ''__#BR_VER_'' @ BR_VERSION @ u ''#__''"

definition pwd_msg :: "args \<Rightarrow> ustr" where
  \<comment> \<open>\<open>f"__#PWD_{self.args.pwd}#__"\<close>, built only where \<open>args.pwd\<close> is a non-empty \<open>str\<close>\<close>
  "pwd_msg a = u ''__#PWD_'' @ (case pwd a of None \<Rightarrow> u ''None'' | Some p \<Rightarrow> p) @ u ''#__''"

definition is_sec :: "args \<Rightarrow> bool" where
  \<comment> \<open>\<open>self.is_sec\<close> once the connection stands: set where \<open>args.secauto or args.sec\<close>\<close>
  "is_sec a = (secauto a \<or> truthy (sec a))"

fun sendall_str :: "ustr list \<Rightarrow> effect list option" where
  \<comment> \<open>\<open>sendall(m.encode())\<close> for each message in turn; \<open>None\<close> when an \<open>encode\<close> raises\<close>
  "sendall_str [] = Some []"
| "sendall_str (m # ms) =
     (case encode m of None \<Rightarrow> None
      | Some b \<Rightarrow> (case sendall_str ms of None \<Rightarrow> None | Some es \<Rightarrow> Some (Send b # es)))"

definition bridge_connect :: "args \<Rightarrow> effect list option" where
  \<comment> \<open>what \<open>run\<close> sends between the connection and the main loop\<close>
  "bridge_connect a =
     (case sendall_str ([id_msg] @ (if is_sec a \<and> truthy (pwd a) then [pwd_msg a] else [])) of
        None \<Rightarrow> None
      | Some es \<Rightarrow> Some (es @ [Send GETVER_CMD, Send GET_KA_TIMEOUT_CMD, Send ASK_CMD]))"

record br_state = io_state +
  keep_running :: bool
  in_loop :: bool
  serial_ready :: bool
  awaiting_params :: bool
  pipe_connected :: bool
  br_remote_params :: ustr
  SRV_VER :: ustr
  in_count :: nat
  out_count :: nat

definition br_params :: "args \<Rightarrow> ustr" where
  \<comment> \<open>\<open>f"__#COM_PARAMS_{port_name} {self.args.baud} {self.args.line}#__"\<close>\<close>
  "br_params a =
     u ''__#COM_PARAMS_''
     @ (case namedpipe a of None \<Rightarrow> comport a | Some n \<Rightarrow> u ''PIPE:'' @ n)
     @ u '' '' @ u (str_int (baud a)) @ u '' '' @ line a @ u ''#__''"

definition br_srv_ver :: "args \<Rightarrow> bytes \<Rightarrow> br_state \<Rightarrow> br_state" where
  "br_srv_ver a data s =
     (if contains ''SRV_VER_'' data then
        (case field_after (u ''SRV_VER_'') (u ''#'') (decode_replace data) of None \<Rightarrow> s
         | Some v \<Rightarrow>
             (let s1 = log_msg a (Server_version v) False (s\<lparr>SRV_VER := v\<rparr>)
              in case encode (br_params a) of None \<Rightarrow> s1
                 | Some b \<Rightarrow> emit (Send b) s1))
      else s)"

definition br_ka_timeout :: "(ustr \<Rightarrow> int option) \<Rightarrow> args \<Rightarrow> bytes \<Rightarrow> br_state \<Rightarrow> br_state" where
  \<comment> \<open>\<open>to_int\<close> is Python's \<open>int\<close>; \<open>None\<close> is its ValueError\<close>
  "br_ka_timeout to_int a data s =
     (if contains MY_KA_TIMEOUT_CMD data then
        (case field_after (u MY_KA_TIMEOUT_CMD) (u ''#'') (decode_replace data) of None \<Rightarrow> s
         | Some t \<Rightarrow>
             (case to_int t of None \<Rightarrow> s
              | Some srv_ka \<Rightarrow>
                  if srv_ka > keepalive a then log_msg a (KeepAlive_OK srv_ka) False s
                  else log_msg a (KeepAlive_RISK srv_ka) False s))
      else s)"

definition br_debug_rx :: "args \<Rightarrow> bytes \<Rightarrow> br_state \<Rightarrow> br_state" where
  "br_debug_rx a data s =
     (if debug a then
        (let s1 = (if contains KEEPALIVE_CMD data then log_msg a (Debug_RX ''KEEPALIVE'') True s else s);
             s2 = (if contains GETVER_CMD data then log_msg a (Debug_RX ''GETVER'') True s1 else s1);
             s3 = (if contains GET_KA_TIMEOUT_CMD data
                   then log_msg a (Debug_RX ''GET_KA_TIMEOUT'') True s2 else s2);
             s4 = (if contains ASK_CMD data then log_msg a (Debug_RX ''ASK_CMD'') True s3 else s3)
         in if contains ''__#COM_PARAMS_'' data
            then log_msg a (Debug_RX ''COM_PARAMS'') True s4 else s4)
      else s)"

definition br_com_params :: "args \<Rightarrow> bytes \<Rightarrow> br_state \<Rightarrow> br_state" where
  "br_com_params a data s =
     (if contains ''__#COM_PARAMS_'' data then
        (case field_after (u ''__#COM_PARAMS_'') (u ''#__'') (strip_py (decode_replace data)) of
           None \<Rightarrow> s
         | Some p \<Rightarrow>
             (let s1 = s\<lparr>br_remote_params := strip_py p\<rparr>
              in (log_msg a (Remote_Params (br_remote_params s1)) False s1)
                   \<lparr>serial_ready := True, awaiting_params := False\<rparr>))
      else s)"

definition br_to_serial :: "args \<Rightarrow> bytes \<Rightarrow> br_state \<Rightarrow> br_state" where
  \<comment> \<open>\<open>if self.serial_ready and data:\<close> write to the serial port or to the named pipe, and
      count\<close>
  "br_to_serial a data s =
     (if serial_ready s \<and> data \<noteq> [] then
        (let use_named_pipe = (namedpipe a \<noteq> None);
             s1 = (if use_named_pipe \<and> pipe_connected s then emit (SerWrite data) s
                   else if \<not> use_named_pipe then emit (SerWrite data) s
                   else s)
         in if pipe_connected s1 \<or> \<not> use_named_pipe
            then s1\<lparr>out_count := out_count s1 + length data\<rparr> else s1)
      else s)"

definition br_replies :: "args \<Rightarrow> bytes \<Rightarrow> br_state \<Rightarrow> br_state option" where
  \<comment> \<open>\<open>if GETVER_CMD in data: ... elif ASK_CMD in data: ...\<close>; \<open>None\<close> when \<open>encode\<close> raises\<close>
  "br_replies a data s =
     (if contains GETVER_CMD data then
        (case encode id_msg of None \<Rightarrow> None | Some b \<Rightarrow> Some (emit (Send b) s))
      else if contains ASK_CMD data then
        (case encode (br_params a) of None \<Rightarrow> None | Some b \<Rightarrow> Some (emit (Send b) s))
      else Some s)"

definition br_recv :: "(ustr \<Rightarrow> int option) \<Rightarrow> args \<Rightarrow> bytes \<Rightarrow> br_state \<Rightarrow> br_state" where
  \<comment> \<open>one pass of the main loop with \<open>self.net_conn.recv\<close> returning \<open>chunk\<close>; an exception
      is caught by the loop's \<open>except Exception\<close>, which logs it under \<open>--debug\<close>\<close>
  "br_recv to_int a chunk s =
     (if chunk = [] then
        (log_msg a Server_disconnected False s)\<lparr>keep_running := False, in_loop := False\<rparr>
      else if contains DISCONNECT_CMD chunk then
        (log_msg a Disconnect_signal False s)\<lparr>keep_running := False, in_loop := False\<rparr>
      else if contains ''__#'' chunk then
        (if contains BAD_PWD_MSG chunk then
           (log_msg a Rejected_password False s)\<lparr>in_loop := False\<rparr>
         else
           (let s1 = br_com_params a chunk
                       (br_debug_rx a chunk
                          (br_ka_timeout to_int a chunk (br_srv_ver a chunk s)))
            in case br_replies a chunk s1 of
                 None \<Rightarrow> log_msg a Debug_write_error True s1
               | Some s2 \<Rightarrow>
                   (let data = sub_frames_bytes chunk
                    in if data = [] then s2 else br_to_serial a data s2)))
      else br_to_serial a chunk s)"

definition br_serial :: "args \<Rightarrow> bytes \<Rightarrow> br_state \<Rightarrow> br_state" where
  \<comment> \<open>the second half of a pass, with \<open>s_data\<close> read from the serial port or the pipe\<close>
  "br_serial a s_data s =
     (if s_data \<noteq> [] \<and> (namedpipe a = None \<or> pipe_connected s) then
        (emit (Send s_data) (emit (SerRead s_data) s))\<lparr>in_count := in_count s + length s_data\<rparr>
      else s)"

section \<open>The client: \<open>SoEClient\<close>\<close>

definition CL_VERSION :: ustr where "CL_VERSION = u ''0.0.56''"

definition cl_ver_msg :: ustr where
  "cl_ver_msg = u ''__#CL_VER_'' @ CL_VERSION @ u ''#__''"

definition client_connect :: "args \<Rightarrow> effect list option" where
  \<comment> \<open>what \<open>run\<close> sends once the connection stands\<close>
  "client_connect a =
     (case sendall_str ([cl_ver_msg] @ (if truthy (pwd a) then [pwd_msg a] else [])) of
        None \<Rightarrow> None
      | Some es \<Rightarrow> Some (es @ [Send GETVER_CMD, Send ASK_CMD]))"

record cl_state = io_state +
  cl_keep_running :: bool
  cl_remote_params :: ustr
  server_version :: ustr
  sent_count :: nat
  recv_count :: nat

definition shutdown :: "cl_state \<Rightarrow> cl_state" where
  \<comment> \<open>\<open>shutdown\<close>: it ends the thread by \<open>sys.exit\<close>\<close>
  "shutdown s = emit Close (emit (Send DISCONNECT_CMD) (s\<lparr>cl_keep_running := False\<rparr>))"

definition cl_srv_ver :: "ustr \<Rightarrow> cl_state \<Rightarrow> cl_state" where
  "cl_srv_ver decoded_part s =
     (if contains (u ''SRV_VER_'') decoded_part then
        (case field_after (u ''SRV_VER_'') (u ''#'') decoded_part of None \<Rightarrow> s
         | Some v \<Rightarrow> s\<lparr>server_version := v\<rparr>)
      else s)"

definition cl_com_params :: "ustr \<Rightarrow> cl_state \<Rightarrow> cl_state" where
  "cl_com_params decoded_part s =
     (if contains (u ''__#COM_PARAMS_'') decoded_part then
        (case field_after (u ''__#COM_PARAMS_'') (u ''#__'') decoded_part of None \<Rightarrow> s
         | Some p \<Rightarrow> s\<lparr>cl_remote_params := strip_py p\<rparr>)
      else s)"

definition cl_write :: "bytes \<Rightarrow> cl_state \<Rightarrow> cl_state" where
  \<comment> \<open>\<open>sys.stdout.write(data.decode(errors='replace'))\<close>\<close>
  "cl_write data s = emit (Stdout (decode_replace data)) s"

definition cl_replies :: "args \<Rightarrow> bytes \<Rightarrow> cl_state \<Rightarrow> cl_state option" where
  \<comment> \<open>the answers to \<open>GETVER\<close> and \<open>GET_KA_TIMEOUT\<close>; \<open>None\<close> when \<open>encode\<close> raises\<close>
  "cl_replies a data s =
     (case (if contains GETVER_CMD data
            then (case encode cl_ver_msg of None \<Rightarrow> None | Some b \<Rightarrow> Some (emit (Send b) s))
            else Some s) of
        None \<Rightarrow> None
      | Some s1 \<Rightarrow>
          if contains GET_KA_TIMEOUT_CMD data
          then (case encode (u ''__#MY_KA_TIMEOUT_'' @ u (str_int (keepalive a)) @ u ''#__'') of
                  None \<Rightarrow> None | Some b \<Rightarrow> Some (emit (Send b) s1))
          else Some s1)"

definition cl_recv :: "args \<Rightarrow> bytes \<Rightarrow> cl_state \<Rightarrow> cl_state" where
  \<comment> \<open>one pass of \<open>_receive_thread\<close> with \<open>self.sock.recv\<close> returning \<open>chunk\<close>; an exception
      leaves the loop, after which the thread calls \<open>shutdown\<close>\<close>
  "cl_recv a chunk s =
     (if chunk = [] then shutdown s
      else
        (let s0 = s\<lparr>recv_count := recv_count s + length chunk\<rparr>
         in if contains ''__#'' chunk then
              (let decoded_part = decode_ignore chunk
               in case cl_replies a chunk s0 of None \<Rightarrow> shutdown s0
                  | Some s1 \<Rightarrow>
                      (let s2 = cl_srv_ver decoded_part s1
                       in if contains BAD_PWD_MSG chunk
                          then shutdown (emit (Log Rejected_password) s2)
                          else if contains DISCONNECT_CMD chunk then shutdown s2
                          else
                            (let s3 = cl_com_params decoded_part s2;
                                 remaining_data = sub_frames_str decoded_part
                             in if strip_py remaining_data = [] then s3
                                else cl_write (encode_replace remaining_data) s3)))
            else cl_write chunk s0))"

definition br_init :: br_state where
  \<comment> \<open>the fields as \<open>__init__\<close> sets them, with \<open>awaiting_params\<close> as \<open>run\<close> sets it before
      the main loop\<close>
  "br_init =
     \<lparr>trace = [], keep_running = True, in_loop = True, serial_ready = False,
      awaiting_params = True, pipe_connected = False, br_remote_params = u ''?? ?? ??'',
      SRV_VER = u ''???'', in_count = 0, out_count = 0\<rparr>"

definition cl_init :: cl_state where
  \<comment> \<open>the fields as \<open>__init__\<close> sets them\<close>
  "cl_init =
     \<lparr>trace = [], cl_keep_running = True, cl_remote_params = u ''?? ?? ??'',
      server_version = u ''?.?.?'', sent_count = 0, recv_count = 0\<rparr>"


section \<open>Notions used in the statements\<close>

fun serial_io :: "effect \<Rightarrow> bool" where
  \<comment> \<open>an effect that moves bytes over the serial endpoint\<close>
  "serial_io (SerRead d) = True"
| "serial_io (SerWrite d) = True"
| "serial_io e = False"

definition pre_auth_silent :: "srv_state \<Rightarrow> bool" where
  \<comment> \<open>both session counters are zero and the serial endpoint has not been touched\<close>
  "pre_auth_silent s =
     (session_in s = 0 \<and> session_out s = 0 \<and> \<not> list_ex serial_io (trace s))"

definition example_args :: "ustr option \<Rightarrow> bool \<Rightarrow> args" where
  \<comment> \<open>a command line for the examples: the password, whether \<open>--secauto\<close> is given, and
      the values of scenario S1 for the rest\<close>
  "example_args p tls =
     \<lparr>pwd = p, comport = u ''SRV-A'', namedpipe = None, baud = 9600, line = u ''8N1N'',
      keepalive = 120, secauto = tls, sec = None, debug = False\<rparr>"

definition new_effects :: "'a io_state_scheme \<Rightarrow> 'b io_state_scheme \<Rightarrow> effect list" where
  \<comment> \<open>what a step from \<open>s\<close> to \<open>t\<close> has added to the trace\<close>
  "new_effects s t = drop (length (trace s)) (trace t)"

definition serial_written :: "effect list \<Rightarrow> bytes list" where
  \<comment> \<open>the payloads written to the serial endpoint, in order\<close>
  "serial_written es = concat (map (\<lambda>e. case e of SerWrite d \<Rightarrow> [d] | _ \<Rightarrow> []) es)"

fun is_ka_log :: "effect \<Rightarrow> bool" where
  \<comment> \<open>a log line of the bridge about the server's keep-alive interval\<close>
  "is_ka_log (Log (KeepAlive_OK n)) = True"
| "is_ka_log (Log (KeepAlive_RISK n)) = True"
| "is_ka_log e = False"

definition bytes_written :: "effect list \<Rightarrow> nat" where
  \<comment> \<open>the number of bytes written to the serial endpoint\<close>
  "bytes_written es = sum_list (map (\<lambda>e. case e of SerWrite d \<Rightarrow> length d | _ \<Rightarrow> 0) es)"

definition bytes_read :: "effect list \<Rightarrow> nat" where
  \<comment> \<open>the number of bytes read from the serial endpoint\<close>
  "bytes_read es = sum_list (map (\<lambda>e. case e of SerRead d \<Rightarrow> length d | _ \<Rightarrow> 0) es)"

definition srv_forwards :: "args \<Rightarrow> bytes \<Rightarrow> srv_state \<Rightarrow> bool" where
  \<comment> \<open>a pass of the server's receive loop takes its data, the bytes held back followed by
      the chunk, as payload: there is no \<open>__#\<close> in it, and the session is authorized or has
      no password\<close>
  "srv_forwards a chunk s =
     (chunk \<noteq> [] \<and> \<not> contains ''__#'' (packet_buffer s @ chunk)
      \<and> (authorized s \<or> \<not> truthy (pwd a)))"

definition br_forwards :: "args \<Rightarrow> bytes \<Rightarrow> br_state \<Rightarrow> bool" where
  \<comment> \<open>a pass of the bridge's loop comes to the write to the serial endpoint with something
      to write: the loop is not left before (empty chunk, \<open>DISCONNECT\<close>, \<open>BADPWD\<close>), the
      answer to \<open>ASK_COM_PARAMS\<close> can be encoded, the serial side is ready (it was, or a
      \<open>COM_PARAMS_\<close> frame in this chunk makes it so), the pipe, where one is used, is
      connected, and the frames are not all of the chunk\<close>
  "br_forwards a chunk s =
     (chunk \<noteq> [] \<and> \<not> contains DISCONNECT_CMD chunk \<and> \<not> contains BAD_PWD_MSG chunk
      \<and> (contains GETVER_CMD chunk \<or> \<not> contains ASK_CMD chunk \<or> encode (br_params a) \<noteq> None)
      \<and> (serial_ready s \<or> contains ''__#COM_PARAMS_'' chunk)
      \<and> (namedpipe a = None \<or> pipe_connected s)
      \<and> sub_frames_bytes chunk \<noteq> [])"


subsection \<open>Relations between the states before and after a step\<close>

definition same_io :: "srv_state \<Rightarrow> srv_state \<Rightarrow> bool" where
  "same_io s t =
     (session_in t = session_in s \<and> session_out t = session_out s
      \<and> stats_in t = stats_in s \<and> stats_out t = stats_out s
      \<and> filter serial_io (trace t) = filter serial_io (trace s)
      \<and> (authorized s \<longrightarrow> authorized t) \<and> old_threads t = old_threads s)"

definition auth_inv :: "srv_state \<Rightarrow> bool" where
  "auth_inv s = (old_threads s = [] \<and> (\<not> authorized s \<longrightarrow> pre_auth_silent s))"

definition same_ctl :: "srv_state \<Rightarrow> srv_state \<Rightarrow> bool" where
  "same_ctl s t =
     (running t = running s \<and> packet_buffer t = packet_buffer s
      \<and> disconnect_requested t = disconnect_requested s \<and> prefix (trace s) (trace t))"

definition extends :: "srv_state \<Rightarrow> srv_state \<Rightarrow> bool" where
  "extends s t = prefix (trace s) (trace t)"

definition br_same :: "br_state \<Rightarrow> br_state \<Rightarrow> bool" where
  "br_same s t =
     (keep_running t = keep_running s \<and> in_loop t = in_loop s \<and> prefix (trace s) (trace t))"

definition br_cnt :: "br_state \<Rightarrow> br_state \<Rightarrow> bool" where
  "br_cnt s t = (out_count t = out_count s \<and> bytes_written (trace t) = bytes_written (trace s))"

definition before_pwd :: "args \<Rightarrow> bytes \<Rightarrow> srv_state \<Rightarrow> srv_state" where
  \<comment> \<open>the state in which the control branch reaches \<open>if b"__#PWD_" in data\<close>\<close>
  "before_pwd a d s =
     on_com_params a d (decode_replace d)
       (on_ask a d (on_get_ka_timeout a d (on_getver d
          (on_version a d (decode_replace d) (on_keepalive a d s)))))"

definition br_quiet :: "br_state \<Rightarrow> br_state \<Rightarrow> bool" where
  "br_quiet s t =
     (out_count t = out_count s \<and> pipe_connected t = pipe_connected s
      \<and> serial_written (trace t) = serial_written (trace s))"


section \<open>Facts about text\<close>

subsection \<open>ASCII text and bytes\<close>

lemma u_Nil [simp]: "u [] = []"
  by (simp add: u_def)

lemma u_Cons: "u (c # cs) = of_char c # u cs"
  by (simp add: u_def)

lemma u_fold [simp]: "u a @ u b = u (a @ b)" "u a @ u b @ r = u (a @ b) @ r"
  by (simp_all add: u_def)

lemma u_eq_iff [simp]: "u a = u b \<longleftrightarrow> a = b"
  by (induction a arbitrary: b) (case_tac b; simp add: u_Cons)+

lemma u_eq_Nil [simp]: "u a = [] \<longleftrightarrow> a = []" "[] = u a \<longleftrightarrow> a = []"
  by (cases a; simp add: u_Cons)+

lemma length_u [simp]: "length (u a) = length a"
  by (simp add: u_def)

lemma drop_u: "drop n (u a) = u (drop n a)"
  by (simp add: u_def drop_map)

lemma rev_u: "rev (u a) = u (rev a)"
  by (simp add: u_def rev_map)

lemma prefix_u [simp]: "prefix (u a) (u b) \<longleftrightarrow> prefix a b"
  by (induction a arbitrary: b) (case_tac b; simp add: u_Cons)+

lemma contains_u [simp]: "contains (u a) (u b) \<longleftrightarrow> contains a b"
proof (induction b)
  case Nil
  show ?case by simp
next
  case (Cons x xs)
  have "prefix (u a) (of_char x # u xs) \<longleftrightarrow> prefix a (x # xs)"
    using prefix_u[of a "x # xs"] by (simp add: u_Cons)
  with Cons show ?case by (simp add: u_Cons)
qed

lemma split_from_u: "split_from (u sep) (u cur) (u s) = map u (split_from sep cur s)"
proof (induction sep cur s rule: split_from.induct)
  case (1 sep cur)
  show ?case by (simp add: rev_u)
next
  case (2 sep cur x xs)
  have p: "prefix (u sep) (of_char x # u xs) \<longleftrightarrow> prefix sep (x # xs)"
    using prefix_u[of sep "x # xs"] by (simp add: u_Cons)
  show ?case
  proof (cases "prefix sep (x # xs)")
    case True
    with 2(1) p show ?thesis by (simp add: rev_u drop_u u_Cons)
  next
    case False
    with 2(2) p show ?thesis by (simp add: u_Cons)
  qed
qed

lemma split_py_u [simp]: "split_py (u sep) (u s) = map u (split_py sep s)"
  using split_from_u[of sep "[]" s] by (simp add: split_py_def)

lemma index_py_map: "index_py (map f xs) i = map_option f (index_py xs i)"
  by (simp add: index_py_def)

lemma field_after_u [simp]:
  "field_after (u m) (u e) (u s) = map_option u (field_after m e s)"
  by (simp add: field_after_def index_py_map split: option.splits)

lemma ascii_simps [simp]:
  "ascii []" "ascii (c # cs) \<longleftrightarrow> of_char c < (128::nat) \<and> ascii cs"
  "ascii (a @ b) \<longleftrightarrow> ascii a \<and> ascii b"
  by (simp_all add: ascii_def)

lemma utf8_decode_ascii: "ascii s \<Longrightarrow> utf8_decode r (map of_char s) = u s"
  by (induction s) (simp_all add: u_Cons)

lemma decode_replace_ascii [simp]: "ascii s \<Longrightarrow> decode_replace s = u s"
  by (simp add: decode_replace_def utf8_decode_ascii)

lemma decode_ignore_ascii [simp]: "ascii s \<Longrightarrow> decode_ignore s = u s"
  by (simp add: decode_ignore_def utf8_decode_ascii)

lemma encode_u [simp]: "ascii s \<Longrightarrow> encode (u s) = Some s"
  by (induction s) (simp_all add: utf8_char_def u_Cons)

lemma encode_append:
  "encode (a @ b) =
     (case encode a of None \<Rightarrow> None
      | Some x \<Rightarrow> (case encode b of None \<Rightarrow> None | Some y \<Rightarrow> Some (x @ y)))"
  by (induction a) (simp_all split: option.splits)

lemma digit_char_ascii: "d < 10 \<Longrightarrow> of_char (digit_char d) < (128::nat)"
proof -
  assume "d < 10"
  then have "d \<in> {0,1,2,3,4,5,6,7,8,9}" by auto
  then show ?thesis by (auto simp: digit_char_def)
qed

lemma ascii_str_nat [simp]: "ascii (str_nat n)"
proof (induction n rule: str_nat.induct)
  case (1 n)
  show ?case
    by (subst str_nat.simps) (use 1 in \<open>simp add: digit_char_ascii\<close>)
qed

lemma ascii_str_int [simp]: "ascii (str_int i)"
  by (simp add: str_int_def)

lemma str_nat_numeral [simp]:
  "str_nat (numeral k) =
     (if numeral k < (10::nat) then [digit_char (numeral k)]
      else str_nat (numeral k div 10) @ [digit_char (numeral k mod 10)])"
  "str_nat 0 = ''0''" "str_nat 1 = ''1''" "str_nat (Suc 0) = ''1''"
  by (subst str_nat.simps, simp add: digit_char_def)+

lemma split_py_eval [simp]:
  "split_py sep [] = [[]]" "split_py sep (x # xs) = split_from sep [] (x # xs)"
  by (simp_all add: split_py_def)

lemma dropWhile_u: "dropWhile P (u s) = u (dropWhile (\<lambda>c. P (of_char c)) s)"
  by (simp add: u_def dropWhile_map comp_def)

lemma strip_py_u [simp]:
  "strip_py (u s) =
     u (rev (dropWhile (\<lambda>c. is_space (of_char c)) (rev (dropWhile (\<lambda>c. is_space (of_char c)) s))))"
  by (simp add: strip_py_def dropWhile_u rev_u)


section \<open>Basic facts\<close>

lemma trace_emit [simp]: "trace (emit e s) = trace s @ [e]"
  by (simp add: emit_def)

lemma trace_log_msg [simp]:
  "trace (log_msg a ev d s) = (if d \<and> \<not> debug a then trace s else trace s @ [Log ev])"
  by (simp add: log_msg_def)

lemma emit_fields [simp]:
  "authorized (emit e s) = authorized s" "packet_buffer (emit e s) = packet_buffer s"
  "client_type (emit e s) = client_type s" "session_in (emit e s) = session_in s"
  "session_out (emit e s) = session_out s" "stats_in (emit e s) = stats_in s"
  "stats_out (emit e s) = stats_out s" "running (emit e s) = running s"
  "disconnect_requested (emit e s) = disconnect_requested s"
  "old_threads (emit e s) = old_threads s"
  by (simp_all add: emit_def)

lemma log_msg_fields [simp]:
  "authorized (log_msg a ev d s) = authorized s"
  "packet_buffer (log_msg a ev d s) = packet_buffer s"
  "client_type (log_msg a ev d s) = client_type s"
  "session_in (log_msg a ev d s) = session_in s"
  "session_out (log_msg a ev d s) = session_out s" "stats_in (log_msg a ev d s) = stats_in s"
  "stats_out (log_msg a ev d s) = stats_out s" "running (log_msg a ev d s) = running s"
  "disconnect_requested (log_msg a ev d s) = disconnect_requested s"
  "old_threads (log_msg a ev d s) = old_threads s"
  by (simp_all add: log_msg_def)

subsection \<open>What the control branch of the server never touches\<close>

lemma same_io_refl [simp]: "same_io s s"
  by (simp add: same_io_def)

lemma same_io_trans: "same_io s t \<Longrightarrow> same_io t r \<Longrightarrow> same_io s r"
  by (simp add: same_io_def)

lemma send_params_and_ask_io: "send_params_and_ask a s = Some t \<Longrightarrow> same_io s t"
  by (auto simp: send_params_and_ask_def same_io_def split: option.splits)

lemma ver_loop_io: "same_io s (ver_loop a parts s)"
proof (induction parts arbitrary: s)
  case Nil
  show ?case by simp
next
  case (Cons p ps)
  have step: "\<And>t. same_io s t \<Longrightarrow> same_io s (ver_loop a ps t)"
    using Cons.IH same_io_trans by blast
  show ?case
    apply (simp only: ver_loop.simps Let_def)
    apply (simp split: option.splits)
    apply (intro conjI impI allI step)
    apply (auto simp: same_io_def dest!: send_params_and_ask_io)
    done
qed

lemma on_keepalive_io: "same_io s (on_keepalive a d s)"
  by (simp add: on_keepalive_def same_io_def)

lemma on_version_io: "same_io s (on_version a d ds s)"
  by (simp add: on_version_def ver_loop_io)

lemma on_getver_io: "same_io s (on_getver d s)"
  by (simp add: on_getver_def same_io_def split: option.splits)

lemma on_get_ka_timeout_io: "same_io s (on_get_ka_timeout a d s)"
  by (simp add: on_get_ka_timeout_def same_io_def split: option.splits)

lemma on_ask_io: "same_io s (on_ask a d s)"
  by (simp add: on_ask_def same_io_def split: option.splits)

lemma on_com_params_io: "same_io s (on_com_params a d ds s)"
  by (simp add: on_com_params_def same_io_def Let_def split: option.splits)

lemma on_pwd_io: "same_io s (on_pwd a d ds s)"
  by (auto simp: on_pwd_def same_io_def Let_def send_params_and_ask_def split: option.splits)

lemma on_disconnect_io: "same_io s (on_disconnect d s)"
  by (simp add: on_disconnect_def same_io_def)

lemma run_handlers_io:
  "(\<And>h t. h \<in> set hs \<Longrightarrow> same_io t (h t)) \<Longrightarrow> same_io s (run_handlers hs s)"
proof (induction hs arbitrary: s)
  case Nil
  show ?case by simp
next
  case (Cons h hs)
  have "same_io s (h s)" using Cons.prems by simp
  moreover have "same_io (h s) (run_handlers hs (h s))" using Cons by simp
  ultimately show ?case using same_io_trans by simp
qed

lemma control_chunk_io: "same_io s (control_chunk a d s)"
  unfolding control_chunk_def Let_def
  by (rule run_handlers_io)
     (auto simp: on_keepalive_io on_version_io on_getver_io on_get_ka_timeout_io on_ask_io
        on_com_params_io on_pwd_io on_disconnect_io)

subsection \<open>The invariant of a session\<close>

lemma same_io_inv: "same_io s t \<Longrightarrow> auth_inv s \<Longrightarrow> auth_inv t"
  by (auto simp: same_io_def auth_inv_def pre_auth_silent_def list_ex_iff filter_empty_conv)

lemma auth_inv_upd [simp]:
  "auth_inv (s\<lparr>packet_buffer := b\<rparr>) = auth_inv s"
  "auth_inv (s\<lparr>running := r\<rparr>) = auth_inv s"
  "auth_inv (s\<lparr>disconnect_requested := r\<rparr>) = auth_inv s"
  by (simp_all add: auth_inv_def pre_auth_silent_def)

lemma data_chunk_inv: "truthy (pwd a) \<Longrightarrow> auth_inv s \<Longrightarrow> auth_inv (data_chunk a d s)"
  by (auto simp: data_chunk_def auth_inv_def pre_auth_silent_def)

lemma srv_recv_inv:
  assumes "truthy (pwd a)" and "auth_inv s"
  shows "auth_inv (srv_recv a c s)"
proof -
  have c: "\<And>d t. auth_inv t \<Longrightarrow> auth_inv (control_chunk a d t)"
    using same_io_inv control_chunk_io by blast
  have d: "\<And>d t. auth_inv t \<Longrightarrow> auth_inv (data_chunk a d t)"
    using data_chunk_inv assms(1) by blast
  show ?thesis unfolding srv_recv_def Let_def using assms(2) by (simp add: c d)
qed

lemma serial_to_socket_inv: "auth_inv s \<Longrightarrow> auth_inv (serial_to_socket d s)"
  by (auto simp: serial_to_socket_def auth_inv_def)

lemma old_serial_to_socket_fields [simp]:
  "authorized (old_serial_to_socket i d s) = authorized s"
  "packet_buffer (old_serial_to_socket i d s) = packet_buffer s"
  "running (old_serial_to_socket i d s) = running s"
  "disconnect_requested (old_serial_to_socket i d s) = disconnect_requested s"
  "session_in (old_serial_to_socket i d s) = session_in s"
  by (simp_all add: old_serial_to_socket_def)

lemma old_serial_to_socket_none [simp]:
  "old_threads s = [] \<Longrightarrow> old_serial_to_socket i d s = s"
  by (simp add: old_serial_to_socket_def)

lemma srv_step_inv: "truthy (pwd a) \<Longrightarrow> auth_inv s \<Longrightarrow> auth_inv (srv_step a s ev)"
  by (cases ev) (simp_all add: srv_recv_inv serial_to_socket_inv, simp_all add: auth_inv_def)

lemma srv_run_inv: "truthy (pwd a) \<Longrightarrow> auth_inv s \<Longrightarrow> auth_inv (srv_run a evs s)"
  unfolding srv_run_def by (induction evs arbitrary: s) (simp_all add: srv_step_inv)

lemma srv_accept_inv: "auth_inv (srv_accept a ti tj)"
  by (simp add: auth_inv_def srv_accept_def pre_auth_silent_def)

text \<open>
  While no sender of an earlier session is running, a session with a password is silent
  until it is authorized: whatever is received and whatever waits on the serial endpoint, in
  any interleaving, both session counters are zero and no byte has been read from or written
  to the serial endpoint.
\<close>

lemma first_session_silent:
  assumes "truthy (pwd a)"
    and "\<not> authorized (srv_run a evs (srv_accept a total_in total_out))"
  shows "pre_auth_silent (srv_run a evs (srv_accept a total_in total_out))"
  using srv_run_inv[OF assms(1) srv_accept_inv] assms(2) by (simp add: auth_inv_def)

subsection \<open>Rules that evaluate a server session on given input\<close>

lemmas srv_eval = srv_run_def srv_accept_def example_args_def srv_recv_def control_chunk_def
  data_chunk_def on_keepalive_def on_version_def on_getver_def on_get_ka_timeout_def on_ask_def
  on_com_params_def on_pwd_def on_disconnect_def serial_to_socket_def srv_close_def truthy_def
  old_serial_to_socket_def srv_next_def
  GETVER_CMD_def GET_KA_TIMEOUT_CMD_def ASK_CMD_def KEEPALIVE_CMD_def DISCONNECT_CMD_def
  BAD_PWD_MSG_def SRV_VERSION_def field_after_def index_py_def received_pwd_def
  ver_field_def srv_params_def send_params_and_ask_def str_int_def digit_char_def Let_def
  emit_def log_msg_def is_space_def
subsection \<open>Substrings\<close>

lemma contains_iff: "contains sub s \<longleftrightarrow> (\<exists>p q. s = p @ sub @ q)"
proof (induction s)
  case Nil
  show ?case by auto
next
  case (Cons x xs)
  show ?case
  proof
    assume "contains sub (x # xs)"
    then consider "prefix sub (x # xs)" | "contains sub xs" by auto
    then show "\<exists>p q. x # xs = p @ sub @ q"
    proof cases
      case 1
      then obtain q where "x # xs = sub @ q" by (auto simp: prefix_def)
      then have "x # xs = [] @ sub @ q" by simp
      then show ?thesis by blast
    next
      case 2
      with Cons obtain p q where "xs = p @ sub @ q" by blast
      then have "x # xs = (x # p) @ sub @ q" by simp
      then show ?thesis by blast
    qed
  next
    assume "\<exists>p q. x # xs = p @ sub @ q"
    then obtain p q where e: "x # xs = p @ sub @ q" by blast
    show "contains sub (x # xs)"
    proof (cases p)
      case Nil
      with e have "prefix sub (x # xs)" by (simp add: prefix_def)
      then show ?thesis by simp
    next
      case (Cons y ys)
      with e have "xs = ys @ sub @ q" by simp
      with Cons.IH show ?thesis by auto
    qed
  qed
qed

lemma contains_trans: "contains a b \<Longrightarrow> contains b s \<Longrightarrow> contains a s"
proof -
  assume "contains a b" and "contains b s"
  then obtain p q p' q' where "b = p @ a @ q" and "s = p' @ b @ q'"
    by (auto simp: contains_iff)
  then have "s = (p' @ p) @ a @ (q @ q')" by simp
  then show ?thesis unfolding contains_iff by blast
qed

lemma contains_append_left: "contains a s \<Longrightarrow> contains a (s @ t)"
proof -
  assume "contains a s"
  then obtain p q where "s = p @ a @ q" by (auto simp: contains_iff)
  then have "s @ t = p @ a @ (q @ t)" by simp
  then show ?thesis unfolding contains_iff by blast
qed

lemma contains_append_right: "contains a t \<Longrightarrow> contains a (s @ t)"
proof -
  assume "contains a t"
  then obtain p q where "t = p @ a @ q" by (auto simp: contains_iff)
  then have "s @ t = (s @ p) @ a @ q" by simp
  then show ?thesis unfolding contains_iff by blast
qed

subsection \<open>Handlers that only add to the trace\<close>

lemma same_ctl_refl [simp]: "same_ctl s s"
  by (simp add: same_ctl_def)

lemma same_ctl_trans: "same_ctl s t \<Longrightarrow> same_ctl t r \<Longrightarrow> same_ctl s r"
  by (auto simp: same_ctl_def)

lemma ver_loop_ctl: "same_ctl s (ver_loop a parts s)"
proof (induction parts arbitrary: s)
  case Nil
  show ?case by simp
next
  case (Cons p ps)
  have step: "\<And>t. same_ctl s t \<Longrightarrow> same_ctl s (ver_loop a ps t)"
    using Cons.IH same_ctl_trans by blast
  show ?case
    apply (simp only: ver_loop.simps Let_def)
    apply (simp split: option.splits)
    apply (intro conjI impI allI step)
    apply (auto simp: same_ctl_def send_params_and_ask_def split: option.splits)
    done
qed

lemma on_keepalive_ctl: "same_ctl s (on_keepalive a d s)"
  by (simp add: on_keepalive_def same_ctl_def)

lemma on_version_ctl: "same_ctl s (on_version a d ds s)"
  by (simp add: on_version_def ver_loop_ctl)

lemma on_getver_eq:
  "on_getver d s = (if contains GETVER_CMD d then emit (Send ''__#SRV_VER_0.0.53#__'') s else s)"
  by (simp add: on_getver_def SRV_VERSION_def)

lemma on_get_ka_timeout_eq:
  "on_get_ka_timeout a d s =
     (if contains GET_KA_TIMEOUT_CMD d
      then emit (Send (''__#MY_KA_TIMEOUT_'' @ str_int (keepalive a) @ ''#__'')) s else s)"
  by (simp add: on_get_ka_timeout_def)

lemma on_getver_ctl: "same_ctl s (on_getver d s)"
  by (simp add: on_getver_eq same_ctl_def)

lemma on_get_ka_timeout_ctl: "same_ctl s (on_get_ka_timeout a d s)"
  by (simp add: on_get_ka_timeout_eq same_ctl_def)

lemma extends_refl [simp]: "extends s s"
  by (simp add: extends_def)

lemma extends_trans: "extends s t \<Longrightarrow> extends t r \<Longrightarrow> extends s r"
  by (auto simp: extends_def)

lemma same_ctl_extends: "same_ctl s t \<Longrightarrow> extends s t"
  by (simp add: same_ctl_def extends_def)

lemma on_ask_extends: "extends s (on_ask a d s)"
  by (simp add: on_ask_def extends_def split: option.splits)

lemma on_com_params_ctl: "same_ctl s (on_com_params a d ds s)"
  by (simp add: on_com_params_def same_ctl_def Let_def split: option.splits)

lemma on_pwd_extends: "extends s (on_pwd a d ds s)"
  by (auto simp: on_pwd_def extends_def Let_def send_params_and_ask_def split: option.splits)

lemma on_disconnect_extends: "extends s (on_disconnect d s)"
  by (simp add: on_disconnect_def extends_def)

lemma run_handlers_extends:
  "(\<And>h t. h \<in> set hs \<Longrightarrow> extends t (h t)) \<Longrightarrow> extends s (run_handlers hs s)"
proof (induction hs arbitrary: s)
  case Nil
  show ?case by simp
next
  case (Cons h hs)
  have "extends s (h s)" using Cons.prems by simp
  moreover have "extends (h s) (run_handlers hs (h s))" using Cons by simp
  ultimately show ?case using extends_trans by simp
qed

lemma run_handlers_stopped: "\<not> running s \<Longrightarrow> run_handlers hs s = s"
  by (cases hs) simp_all

lemma control_chunk_unfold:
  assumes "running s"
  shows "control_chunk a d s =
     run_handlers [on_com_params a d (decode_replace d), on_pwd a d (decode_replace d),
                   on_disconnect d]
       (on_ask a d (on_get_ka_timeout a d (on_getver d
          (on_version a d (decode_replace d) (on_keepalive a d s)))))"
proof -
  let ?dd = "decode_replace d"
  let ?s1 = "on_keepalive a d s"
  let ?s2 = "on_version a d ?dd ?s1"
  let ?s3 = "on_getver d ?s2"
  let ?s4 = "on_get_ka_timeout a d ?s3"
  have r1: "running ?s1" using on_keepalive_ctl[of s a d] assms by (simp add: same_ctl_def)
  have r2: "running ?s2" using on_version_ctl[of ?s1 a d ?dd] r1 by (simp add: same_ctl_def)
  have r3: "running ?s3" using on_getver_ctl[of ?s2 d] r2 by (simp add: same_ctl_def)
  have r4: "running ?s4" using on_get_ka_timeout_ctl[of ?s3 a d] r3 by (simp add: same_ctl_def)
  show ?thesis
    unfolding control_chunk_def Let_def
    using assms r1 r2 r3 r4 by (simp add: run_handlers_stopped)
qed

lemma new_effects_mono:
  assumes "e \<in> set (new_effects s t)" and "prefix (trace t) (trace r)"
  shows "e \<in> set (new_effects s r)"
proof -
  from assms(2) obtain z where "trace r = trace t @ z" by (auto simp: prefix_def)
  with assms(1) show ?thesis by (auto simp: new_effects_def dest: in_set_dropD)
qed

lemma tail_extends:
  "extends t (run_handlers [on_com_params a d dd, on_pwd a d dd, on_disconnect d] t)"
  by (rule run_handlers_extends)
     (auto simp: on_pwd_extends on_disconnect_extends same_ctl_extends[OF on_com_params_ctl])

lemma new_effects_emit:
  "prefix (trace s) (trace t) \<Longrightarrow> e \<in> set (new_effects s (emit e t))"
  by (auto simp: new_effects_def prefix_def)

lemma srv_recv_control:
  assumes "chunk \<noteq> []" and "contains ''__#'' (packet_buffer s @ chunk)"
    and "contains ''#__'' (packet_buffer s @ chunk)"
  shows "srv_recv a chunk s = control_chunk a (packet_buffer s @ chunk) (s\<lparr>packet_buffer := []\<rparr>)"
proof (cases "packet_buffer s = []")
  case True
  then have e: "s\<lparr>packet_buffer := []\<rparr> = s" by (cases s) simp
  have "srv_recv a chunk s = control_chunk a chunk s"
    using True assms by (simp add: srv_recv_def Let_def)
  then show ?thesis by (simp only: e True append_Nil)
next
  case False
  with assms show ?thesis by (simp add: srv_recv_def Let_def)
qed

subsection \<open>Rules that evaluate the bridge and the client on given input\<close>

lemmas br_eval = br_recv_def br_srv_ver_def br_ka_timeout_def br_debug_rx_def br_com_params_def
  br_to_serial_def br_replies_def br_serial_def br_params_def br_init_def bridge_connect_def
  id_msg_def BR_VERSION_def pwd_msg_def is_sec_def example_args_def truthy_def
  GETVER_CMD_def GET_KA_TIMEOUT_CMD_def ASK_CMD_def KEEPALIVE_CMD_def DISCONNECT_CMD_def
  BAD_PWD_MSG_def MY_KA_TIMEOUT_CMD_def field_after_def index_py_def str_int_def digit_char_def
  sub_frames_bytes_def tail_no_hash_def Let_def emit_def log_msg_def is_space_def

lemmas cl_eval = cl_recv_def cl_replies_def cl_srv_ver_def cl_com_params_def cl_write_def
  shutdown_def cl_init_def client_connect_def cl_ver_msg_def CL_VERSION_def pwd_msg_def
  example_args_def truthy_def GETVER_CMD_def GET_KA_TIMEOUT_CMD_def ASK_CMD_def
  DISCONNECT_CMD_def BAD_PWD_MSG_def field_after_def index_py_def str_int_def digit_char_def
  sub_frames_str_def Let_def emit_def log_msg_def is_space_def

lemmas num_eval = u_def strip_py_def encode_replace_def utf8_char_def

lemma to_decimal_numeral:
  "to_decimal (numeral k) =
     (case find (\<lambda>z. z \<le> numeral k \<and> numeral k < z + 10) decimal_zeros of None \<Rightarrow> None
      | Some z \<Rightarrow> Some (numeral k - z))"
  by (simp add: to_decimal_def)

lemma int_body_numeral:
  "int_body (numeral k) = (numeral k = (95::nat) \<or> to_decimal (numeral k) \<noteq> None)"
  by (simp add: int_body_def)

lemma int_space_numeral:
  "int_space (numeral k)
     = (is_space (numeral k) \<and> \<not> (28 \<le> (numeral k :: nat) \<and> (numeral k :: nat) \<le> 31))"
  by (simp add: int_space_def)

lemmas int_eval = int_py_def int_unsigned_def int_value_def Let_def decimal_zeros_def
  to_decimal_numeral int_body_numeral int_space_numeral is_space_def

subsection \<open>A frame that is not closed\<close>

lemma not_contains_prefix: "\<not> contains a (s @ t) \<Longrightarrow> \<not> contains a s"
  using contains_append_left by blast

lemma srv_recv_hold:
  assumes "chunk \<noteq> []" and "contains ''__#'' (packet_buffer s @ chunk)"
    and "\<not> contains ''#__'' (packet_buffer s @ chunk)"
  shows "srv_recv a chunk s = s\<lparr>packet_buffer := packet_buffer s @ chunk\<rparr>"
  using assms by (cases "packet_buffer s = []") (simp_all add: srv_recv_def Let_def)

lemma not_prefix_replicate: "x \<noteq> c \<Longrightarrow> \<not> prefix (x # xs) (replicate n c)"
  by (cases n) simp_all

lemma not_contains_replicate: "x \<noteq> c \<Longrightarrow> \<not> contains (x # xs) (replicate n c)"
  by (induction n) (simp_all add: not_prefix_replicate[of x c xs "Suc _", simplified])

subsection \<open>The version messages\<close>

lemma encode_id_msg: "encode id_msg = Some ''__#BR_VER_0.0.70#__''"
  by (simp add: id_msg_def BR_VERSION_def)

lemma encode_cl_ver_msg: "encode cl_ver_msg = Some ''__#CL_VER_0.0.56#__''"
  by (simp add: cl_ver_msg_def CL_VERSION_def)

subsection \<open>The bridge: what a pass of the loop leaves alone\<close>

lemma br_same_refl [simp]: "br_same s s"
  by (simp add: br_same_def)

lemma br_same_trans: "br_same s t \<Longrightarrow> br_same t r \<Longrightarrow> br_same s r"
  by (auto simp: br_same_def)

lemma br_fields [simp]:
  "keep_running (emit e s) = keep_running s" "in_loop (emit e s) = in_loop s"
  "serial_ready (emit e s) = serial_ready s" "pipe_connected (emit e s) = pipe_connected s"
  "in_count (emit e s) = in_count s" "out_count (emit e s) = out_count s"
  "keep_running (log_msg a ev d s) = keep_running s" "in_loop (log_msg a ev d s) = in_loop s"
  "serial_ready (log_msg a ev d s) = serial_ready s"
  "pipe_connected (log_msg a ev d s) = pipe_connected s"
  "in_count (log_msg a ev d s) = in_count s" "out_count (log_msg a ev d s) = out_count s"
  by (simp_all add: emit_def log_msg_def)

lemma br_srv_ver_same: "br_same s (br_srv_ver a d s)"
  by (simp add: br_srv_ver_def br_same_def Let_def split: option.splits)

lemma br_ka_timeout_same: "br_same s (br_ka_timeout f a d s)"
  by (simp add: br_ka_timeout_def br_same_def split: option.splits)

lemma br_debug_rx_same: "br_same s (br_debug_rx a d s)"
  by (simp add: br_debug_rx_def br_same_def Let_def)

lemma br_com_params_same: "br_same s (br_com_params a d s)"
  by (simp add: br_com_params_def br_same_def Let_def split: option.splits)

lemma br_to_serial_same: "br_same s (br_to_serial a d s)"
  by (simp add: br_to_serial_def br_same_def Let_def)

lemma br_replies_same: "br_replies a d s = Some t \<Longrightarrow> br_same s t"
  by (auto simp: br_replies_def br_same_def split: if_splits option.splits)

lemma br_recv_tail_same:
  "br_same s (case br_replies a c s of None \<Rightarrow> log_msg a Debug_write_error True s
              | Some s2 \<Rightarrow> (let data = sub_frames_bytes c
                            in if data = [] then s2 else br_to_serial a data s2))"
proof (cases "br_replies a c s")
  case None
  then show ?thesis by (simp add: br_same_def)
next
  case (Some t)
  then have "br_same s t" by (rule br_replies_same)
  with Some show ?thesis
    using br_same_trans[OF _ br_to_serial_same] by (simp add: Let_def)
qed

lemma br_recv_frames:
  assumes "chunk \<noteq> []" and "\<not> contains DISCONNECT_CMD chunk" and "contains ''__#'' chunk"
    and "\<not> contains BAD_PWD_MSG chunk"
  shows "br_recv f a chunk s =
     (let s1 = br_com_params a chunk (br_debug_rx a chunk (br_ka_timeout f a chunk
                 (br_srv_ver a chunk s)))
      in case br_replies a chunk s1 of None \<Rightarrow> log_msg a Debug_write_error True s1
         | Some s2 \<Rightarrow> (let data = sub_frames_bytes chunk
                       in if data = [] then s2 else br_to_serial a data s2))"
  using assms by (simp add: br_recv_def)

lemma br_recv_same:
  assumes "chunk \<noteq> []" and "\<not> contains DISCONNECT_CMD chunk"
    and "\<not> contains BAD_PWD_MSG chunk"
  shows "br_same s (br_recv f a chunk s)"
proof (cases "contains ''__#'' chunk")
  case False
  with assms show ?thesis by (simp add: br_recv_def br_to_serial_same)
next
  case True
  let ?k = "br_ka_timeout f a chunk (br_srv_ver a chunk s)"
  let ?s1 = "br_com_params a chunk (br_debug_rx a chunk ?k)"
  have 1: "br_same s ?s1"
    using br_same_trans[OF br_same_trans[OF br_same_trans[OF br_srv_ver_same br_ka_timeout_same]
      br_debug_rx_same] br_com_params_same] .
  show ?thesis
    unfolding br_recv_frames[OF assms(1,2) True assms(3)] Let_def
    using br_same_trans[OF 1 br_recv_tail_same[unfolded Let_def]] .
qed

subsection \<open>The bridge: log lines about the keep-alive interval\<close>

lemma kl_srv_ver: "filter is_ka_log (trace (br_srv_ver a d s)) = filter is_ka_log (trace s)"
  by (simp add: br_srv_ver_def Let_def split: option.splits)

lemma kl_debug_rx: "filter is_ka_log (trace (br_debug_rx a d s)) = filter is_ka_log (trace s)"
  by (simp add: br_debug_rx_def Let_def)

lemma kl_com_params: "filter is_ka_log (trace (br_com_params a d s)) = filter is_ka_log (trace s)"
  by (simp add: br_com_params_def Let_def split: option.splits)

lemma kl_to_serial: "filter is_ka_log (trace (br_to_serial a d s)) = filter is_ka_log (trace s)"
  by (simp add: br_to_serial_def Let_def)

lemma kl_replies:
  "br_replies a d s = Some t \<Longrightarrow> filter is_ka_log (trace t) = filter is_ka_log (trace s)"
  by (auto simp: br_replies_def split: if_splits option.splits)

lemma kl_tail:
  "filter is_ka_log (trace (case br_replies a c s of None \<Rightarrow> log_msg a Debug_write_error True s
              | Some s2 \<Rightarrow> (let data = sub_frames_bytes c
                            in if data = [] then s2 else br_to_serial a data s2)))
   = filter is_ka_log (trace s)"
  by (cases "br_replies a c s") (auto simp: Let_def kl_to_serial dest: kl_replies)

lemma kl_ka_timeout:
  assumes "contains MY_KA_TIMEOUT_CMD d"
    and "field_after (u MY_KA_TIMEOUT_CMD) (u ''#'') (decode_replace d) = Some t"
    and "f t = Some n"
  shows "filter is_ka_log (trace (br_ka_timeout f a d s))
         = filter is_ka_log (trace s)
           @ [Log (if keepalive a < n then KeepAlive_OK n else KeepAlive_RISK n)]"
  using assms by (simp add: br_ka_timeout_def)

lemma filter_new_effects:
  assumes "prefix (trace s) (trace t)"
  shows "filter P (trace t) = filter P (trace s) @ filter P (new_effects s t)"
proof -
  from assms obtain x where "trace t = trace s @ x" by (auto simp: prefix_def)
  then show ?thesis by (simp add: new_effects_def)
qed

subsection \<open>Counters and bytes moved over the serial endpoint\<close>

lemma bytes_written_simps [simp]:
  "bytes_written [] = 0"
  "bytes_written (e # es) = (case e of SerWrite d \<Rightarrow> length d | _ \<Rightarrow> 0) + bytes_written es"
  "bytes_written (xs @ ys) = bytes_written xs + bytes_written ys"
  by (simp_all add: bytes_written_def)

lemma bytes_read_simps [simp]:
  "bytes_read [] = 0"
  "bytes_read (e # es) = (case e of SerRead d \<Rightarrow> length d | _ \<Rightarrow> 0) + bytes_read es"
  "bytes_read (xs @ ys) = bytes_read xs + bytes_read ys"
  by (simp_all add: bytes_read_def)

lemma bytes_written_filter: "bytes_written (filter serial_io es) = bytes_written es"
proof (induction es)
  case Nil
  show ?case by simp
next
  case (Cons e es)
  then show ?case by (cases e) simp_all
qed

lemma same_io_written: "same_io s t \<Longrightarrow> bytes_written (trace t) = bytes_written (trace s)"
  by (metis bytes_written_filter same_io_def)

lemma srv_recv_counts:
  "session_in (srv_recv a c s) + bytes_written (trace s)
     = session_in s + bytes_written (trace (srv_recv a c s))"
proof -
  have ctl: "session_in (control_chunk a d t) + bytes_written (trace t)
             = session_in t + bytes_written (trace (control_chunk a d t))" for d t
    using control_chunk_io[of t a d] same_io_written[of t "control_chunk a d t"]
    by (simp add: same_io_def)
  have dat: "session_in (data_chunk a d t) + bytes_written (trace t)
             = session_in t + bytes_written (trace (data_chunk a d t))" for d t
    by (simp add: data_chunk_def)
  show ?thesis
    using ctl[of "packet_buffer s @ c" "s\<lparr>packet_buffer := []\<rparr>"] ctl[of c s]
      dat[of "packet_buffer s @ c" "s\<lparr>packet_buffer := []\<rparr>"] dat[of c s]
    by (simp add: srv_recv_def Let_def)
qed

lemma serial_to_socket_counts:
  "session_out (serial_to_socket d s) + bytes_read (trace s)
     = session_out s + bytes_read (trace (serial_to_socket d s))"
  by (simp add: serial_to_socket_def)

lemma br_cnt_trans: "br_cnt s t \<Longrightarrow> br_cnt t r \<Longrightarrow> br_cnt s r"
  by (simp add: br_cnt_def)

lemma br_srv_ver_cnt: "br_cnt s (br_srv_ver a d s)"
  by (simp add: br_srv_ver_def br_cnt_def Let_def split: option.splits)

lemma br_ka_timeout_cnt: "br_cnt s (br_ka_timeout f a d s)"
  by (simp add: br_ka_timeout_def br_cnt_def split: option.splits)

lemma br_debug_rx_cnt: "br_cnt s (br_debug_rx a d s)"
  by (simp add: br_debug_rx_def br_cnt_def Let_def)

lemma br_com_params_cnt: "br_cnt s (br_com_params a d s)"
  by (simp add: br_com_params_def br_cnt_def Let_def split: option.splits)

lemma br_replies_cnt: "br_replies a d s = Some t \<Longrightarrow> br_cnt s t"
  by (auto simp: br_replies_def br_cnt_def split: if_splits option.splits)

lemma br_to_serial_counts:
  "out_count (br_to_serial a d s) + bytes_written (trace s)
     = out_count s + bytes_written (trace (br_to_serial a d s))"
  by (simp add: br_to_serial_def Let_def)

lemma br_tail_counts:
  "out_count (case br_replies a c s of None \<Rightarrow> log_msg a Debug_write_error True s
              | Some s2 \<Rightarrow> (let data = sub_frames_bytes c
                            in if data = [] then s2 else br_to_serial a data s2))
     + bytes_written (trace s)
   = out_count s
     + bytes_written (trace (case br_replies a c s of
                None \<Rightarrow> log_msg a Debug_write_error True s
              | Some s2 \<Rightarrow> (let data = sub_frames_bytes c
                            in if data = [] then s2 else br_to_serial a data s2)))"
proof (cases "br_replies a c s")
  case None
  then show ?thesis by simp
next
  case (Some t)
  then have "br_cnt s t" by (rule br_replies_cnt)
  with Some show ?thesis
    using br_to_serial_counts[of a "sub_frames_bytes c" t] by (simp add: br_cnt_def Let_def)
qed

lemma br_recv_counts:
  "out_count (br_recv f a c s) + bytes_written (trace s)
     = out_count s + bytes_written (trace (br_recv f a c s))"
proof -
  let ?s1 = "br_com_params a c (br_debug_rx a c (br_ka_timeout f a c (br_srv_ver a c s)))"
  have 1: "br_cnt s ?s1"
    using br_cnt_trans[OF br_cnt_trans[OF br_cnt_trans[OF br_srv_ver_cnt br_ka_timeout_cnt]
      br_debug_rx_cnt] br_com_params_cnt] .
  show ?thesis
    using br_tail_counts[where a = a and c = c and s = ?s1] 1 br_to_serial_counts[of a c s]
    by (simp add: br_recv_def Let_def br_cnt_def)
qed

lemma br_serial_counts:
  "in_count (br_serial a d s) + bytes_read (trace s)
     = in_count s + bytes_read (trace (br_serial a d s))"
  by (simp add: br_serial_def)

lemma cl_fields [simp]:
  "recv_count (emit e s) = recv_count s" "recv_count (log_msg a ev d s) = recv_count s"
  by (simp_all add: emit_def log_msg_def)

lemma cl_recv_counts: "recv_count (cl_recv a c s) = recv_count s + length c"
  by (simp add: cl_recv_def shutdown_def cl_write_def cl_com_params_def cl_srv_ver_def
      cl_replies_def Let_def split: option.splits if_splits)

subsection \<open>Text that survives decoding, and the field after a marker\<close>

lemma utf8_first_ascii: "b < 128 \<Longrightarrow> utf8_first (b # bs) = (Some b, 1)"
  by simp

lemma utf8_first_run:
  assumes "utf8_first (b # bs) = (c, n)"
  shows "n - 1 \<le> length bs \<and> (\<forall>x \<in> set (take (n - 1) bs). 128 \<le> x)"
proof -
  have t1: "take (Suc 0) (x # xs) = [x]" for x :: nat and xs by simp
  show ?thesis
    using assms
    by (auto simp: cont_def t1 split: if_splits list.splits
             simp del: take_Suc_Cons dest!: in_set_takeD)
qed
lemma utf8_decode_resync:
  assumes "y < 128"
  shows "\<exists>P. utf8_decode r (xs @ y # ys) = P @ utf8_decode r (y # ys)"
proof (induction "length xs" arbitrary: xs rule: less_induct)
  case less
  show ?case
  proof (cases xs)
    case Nil
    then show ?thesis by simp
  next
    case (Cons b bs)
    obtain c n where f: "utf8_first (b # (bs @ y # ys)) = (c, n)" by (cases "utf8_first (b # (bs @ y # ys))")
    from utf8_first_run[OF f]
    have le: "n - 1 \<le> length (bs @ y # ys)" and hi: "\<forall>x \<in> set (take (n - 1) (bs @ y # ys)). 128 \<le> x"
      by auto
    have "n - 1 \<le> length bs"
    proof (rule ccontr)
      assume "\<not> n - 1 \<le> length bs"
      then have lt: "length bs < n - 1" by simp
      then obtain k where k: "n - 1 - length bs = Suc k"
        by (metis Suc_diff_Suc diff_is_0_eq' linorder_not_le zero_less_diff)
      have "take (n - 1) (bs @ y # ys) = bs @ take (n - 1 - length bs) (y # ys)"
        using lt by simp
      then have yin: "y \<in> set (take (n - 1) (bs @ y # ys))" unfolding k by simp
      from hi yin have "128 \<le> y" by blast
      with assms show False by simp
    qed
    then have d: "drop (n - 1) (bs @ y # ys) = drop (n - 1) bs @ y # ys" by simp
    have "length (drop (n - 1) bs) < length xs" using Cons by simp
    from less[OF this] obtain P where
      "utf8_decode r (drop (n - 1) bs @ y # ys) = P @ utf8_decode r (y # ys)" by blast
    with f d Cons show ?thesis by (simp del: utf8_first.simps)
  qed
qed

lemma utf8_decode_ascii_prefix:
  "ascii sub \<Longrightarrow> utf8_decode r (map of_char sub @ rest) = u sub @ utf8_decode r rest"
  by (induction sub) (simp_all add: u_Cons)

lemma contains_decode:
  assumes "ascii sub" and "contains sub data"
  shows "contains (u sub) (utf8_decode r (map of_char data))"
proof (cases sub)
  case Nil
  show ?thesis unfolding Nil by (cases "utf8_decode r (map of_char data)") simp_all
next
  case (Cons c cs)
  from assms(2) obtain p q where e: "data = p @ sub @ q" by (auto simp: contains_iff)
  have c: "of_char c < (128::nat)" using assms(1) Cons by simp
  have m: "map of_char data = map of_char p @ of_char c # (map of_char cs @ map of_char q)"
    using e Cons by simp
  have m2: "map of_char sub @ map of_char q = of_char c # (map of_char cs @ map of_char q)"
    using Cons by simp
  from utf8_decode_resync[OF c, of r "map of_char p" "map of_char cs @ map of_char q"]
  obtain P where "utf8_decode r (map of_char p @ of_char c # (map of_char cs @ map of_char q))
      = P @ utf8_decode r (of_char c # (map of_char cs @ map of_char q))" by blast
  then have "utf8_decode r (map of_char data)
      = P @ utf8_decode r (of_char c # (map of_char cs @ map of_char q))" unfolding m .
  moreover have "utf8_decode r (of_char c # (map of_char cs @ map of_char q))
                 = u sub @ utf8_decode r (map of_char q)"
    using utf8_decode_ascii_prefix[OF assms(1), of r "map of_char q"] unfolding m2 .
  ultimately have "utf8_decode r (map of_char data) = P @ u sub @ utf8_decode r (map of_char q)"
    by (simp only:)
  then show ?thesis unfolding contains_iff by blast
qed

lemma contains_decode_replace:
  "ascii sub \<Longrightarrow> contains sub data \<Longrightarrow> contains (u sub) (decode_replace data)"
  by (simp add: decode_replace_def contains_decode)

lemma split_from_nonempty: "split_from sep cur s \<noteq> []"
  by (induction sep cur s rule: split_from.induct) simp_all

lemma split_from_two:
  "sep \<noteq> [] \<Longrightarrow> contains sep s \<Longrightarrow> 2 \<le> length (split_from sep cur s)"
proof (induction sep cur s rule: split_from.induct)
  case (1 sep cur)
  then show ?case by simp
next
  case (2 sep cur x xs)
  show ?case
  proof (cases "prefix sep (x # xs)")
    case True
    have "1 \<le> length (split_from sep [] (drop (length sep - 1) xs))"
      using split_from_nonempty[of sep "[]" "drop (length sep - 1) xs"]
      by (cases "split_from sep [] (drop (length sep - 1) xs)") simp_all
    with True show ?thesis by simp
  next
    case False
    with 2 show ?thesis by simp
  qed
qed

lemma split_from_head:
  "\<exists>rest. split_from [c] cur s = (rev cur @ takeWhile (\<lambda>x. x \<noteq> c) s) # rest"
proof (induction s arbitrary: cur)
  case Nil
  show ?case by simp
next
  case (Cons x xs)
  show ?case
  proof (cases "x = c")
    case True
    then show ?thesis by simp
  next
    case False
    with Cons[of "x # cur"] show ?thesis by simp
  qed
qed

lemma field_after_exists:
  assumes "mark \<noteq> []" and "contains mark s"
  shows "\<exists>x. field_after mark [c] s = Some x \<and> c \<notin> set x"
proof -
  have "2 \<le> length (split_py mark s)"
    using split_from_two[OF assms] by (simp add: split_py_def)
  then obtain r where r: "index_py (split_py mark s) 1 = Some r"
    by (simp add: index_py_def)
  obtain rest where h: "split_py [c] r = takeWhile (\<lambda>x. x \<noteq> c) r # rest"
    using split_from_head[of c "[]" r] by (auto simp: split_py_def)
  have "c \<notin> set (takeWhile (\<lambda>x. x \<noteq> c) r)" by (auto dest: set_takeWhileD)
  with r h show ?thesis by (simp add: field_after_def index_py_def)
qed

lemma field_after_no_stop: "field_after mark [c] s = Some x \<Longrightarrow> c \<notin> set x"
proof -
  assume a: "field_after mark [c] s = Some x"
  then obtain r where r: "index_py (split_py mark s) 1 = Some r"
    by (auto simp: field_after_def split: option.splits)
  obtain rest where h: "split_py [c] r = takeWhile (\<lambda>x. x \<noteq> c) r # rest"
    using split_from_head[of c "[]" r] by (auto simp: split_py_def)
  from a r h have "x = takeWhile (\<lambda>x. x \<noteq> c) r" by (simp add: field_after_def index_py_def)
  then show ?thesis by (auto dest: set_takeWhileD)
qed

lemma received_pwd_exists:
  assumes "contains ''__#PWD_'' data"
  shows "\<exists>x. received_pwd (decode_replace data) = Some x \<and> of_char CHR ''#'' \<notin> set x"
proof -
  have "contains (u ''__#PWD_'') (decode_replace data)"
    using assms by (intro contains_decode_replace) simp_all
  then show ?thesis
    using field_after_exists[of "u ''__#PWD_''" "decode_replace data" "of_char CHR ''#''"]
    by (simp add: received_pwd_def u_Cons)
qed

subsection \<open>The server: the password frame\<close>

lemma ver_loop_auth: "truthy (pwd a) \<Longrightarrow> authorized (ver_loop a parts s) = authorized s"
  by (induction parts arbitrary: s) (simp_all add: Let_def split: option.splits)

lemma ver_loop_client_type_other [simp]:
  "disconnect_requested (ver_loop a parts s) = disconnect_requested s"
  using ver_loop_ctl[of s a parts] by (simp add: same_ctl_def)

lemma before_pwd_ctl:
  assumes "encode (srv_params a) = Some fr"
  shows "running (before_pwd a d s) = running s"
    and "disconnect_requested (before_pwd a d s) = disconnect_requested s"
    and "prefix (trace s) (trace (before_pwd a d s))"
proof -
  let ?dd = "decode_replace d"
  let ?s4 = "on_get_ka_timeout a d (on_getver d (on_version a d ?dd (on_keepalive a d s)))"
  have 4: "same_ctl s ?s4"
    using same_ctl_trans[OF same_ctl_trans[OF same_ctl_trans[OF on_keepalive_ctl on_version_ctl]
      on_getver_ctl] on_get_ka_timeout_ctl] .
  have 5: "same_ctl ?s4 (on_ask a d ?s4)"
    using assms by (simp add: on_ask_def same_ctl_def)
  have "same_ctl s (before_pwd a d s)"
    unfolding before_pwd_def
    using same_ctl_trans[OF same_ctl_trans[OF 4 5] on_com_params_ctl] .
  then show "running (before_pwd a d s) = running s"
    and "disconnect_requested (before_pwd a d s) = disconnect_requested s"
    and "prefix (trace s) (trace (before_pwd a d s))"
    by (simp_all add: same_ctl_def)
qed

lemma before_pwd_io: "same_io s (before_pwd a d s)"
  unfolding before_pwd_def
  using same_io_trans[OF same_io_trans[OF same_io_trans[OF same_io_trans[OF same_io_trans[OF
    on_keepalive_io on_version_io] on_getver_io] on_get_ka_timeout_io] on_ask_io]
    on_com_params_io] .

lemma before_pwd_auth: "truthy (pwd a) \<Longrightarrow> authorized (before_pwd a d s) = authorized s"
  by (simp add: before_pwd_def on_com_params_def on_ask_def on_get_ka_timeout_eq on_getver_eq
      on_version_def on_keepalive_def ver_loop_auth Let_def split: option.splits)

lemma control_chunk_pwd:
  assumes "running s" and "encode (srv_params a) = Some fr"
  shows "control_chunk a d s
         = run_handlers [on_disconnect d] (on_pwd a d (decode_replace d) (before_pwd a d s))"
proof -
  let ?dd = "decode_replace d"
  let ?s5 = "on_ask a d (on_get_ka_timeout a d (on_getver d
               (on_version a d ?dd (on_keepalive a d s))))"
  have r: "running (before_pwd a d s)" using before_pwd_ctl(1)[OF assms(2)] assms(1) by simp
  have "same_ctl ?s5 (on_com_params a d ?dd ?s5)" by (rule on_com_params_ctl)
  then have r5: "running ?s5" using r by (simp add: before_pwd_def same_ctl_def)
  show ?thesis
    unfolding control_chunk_unfold[OF assms(1)]
    using r r5 by (simp add: before_pwd_def)
qed

lemma srv_recv_pwd:
  assumes "running s" and "chunk \<noteq> []"
    and "contains ''__#PWD_'' (packet_buffer s @ chunk)"
    and "contains ''#__'' (packet_buffer s @ chunk)"
    and "encode (srv_params a) = Some fr"
  shows "srv_recv a chunk s
         = run_handlers [on_disconnect (packet_buffer s @ chunk)]
             (on_pwd a (packet_buffer s @ chunk) (decode_replace (packet_buffer s @ chunk))
                (before_pwd a (packet_buffer s @ chunk) (s\<lparr>packet_buffer := []\<rparr>)))"
proof -
  have "contains ''__#'' ''__#PWD_''" by simp
  then have f: "contains ''__#'' (packet_buffer s @ chunk)"
    using assms(3) contains_trans by blast
  have r: "running (s\<lparr>packet_buffer := []\<rparr>)" using assms(1) by simp
  show ?thesis
    unfolding srv_recv_control[OF assms(2) f assms(4)] control_chunk_pwd[OF r assms(5)] ..
qed

lemma on_pwd_mismatch:
  assumes "contains ''__#PWD_'' d" and "received_pwd dd = Some x" and "Some x \<noteq> pwd a"
  shows "on_pwd a d dd s
         = (emit (Sleep 500) (emit (Send BAD_PWD_MSG)
              (log_msg a Invalid_Password False s)))\<lparr>running := False\<rparr>"
  using assms by (simp add: on_pwd_def)

lemma on_pwd_match:
  assumes "contains ''__#PWD_'' d" and "received_pwd dd = Some x" and "pwd a = Some x"
    and "encode (srv_params a) = Some fr"
  shows "on_pwd a d dd s
         = (if client_type s = u ''BR''
            then emit (Send ASK_CMD) (emit (Send fr)
                   (log_msg a Password_Correct False (s\<lparr>authorized := True\<rparr>)))
            else log_msg a Password_Correct False (s\<lparr>authorized := True\<rparr>))"
  using assms by (simp add: on_pwd_def send_params_and_ask_def Let_def)

lemma serial_written_filter: "serial_written (filter serial_io es) = serial_written es"
proof (induction es)
  case Nil
  show ?case by simp
next
  case (Cons e es)
  then show ?case by (cases e) (simp_all add: serial_written_def)
qed

lemma same_io_serial_written:
  "same_io s t \<Longrightarrow> serial_written (trace t) = serial_written (trace s)"
  by (metis serial_written_filter same_io_def)

lemma on_disconnect_fields [simp]:
  "trace (on_disconnect d s) = trace s" "authorized (on_disconnect d s) = authorized s"
  "client_type (on_disconnect d s) = client_type s"
  by (simp_all add: on_disconnect_def)

subsection \<open>The server: a password with a hash sign\<close>

lemma hash_pwd_truthy: "pwd a = Some p \<Longrightarrow> c \<in> set p \<Longrightarrow> truthy (pwd a)"
  by (auto simp: truthy_def)

lemma received_pwd_no_hash: "received_pwd dd = Some x \<Longrightarrow> of_char CHR ''#'' \<notin> set x"
  using field_after_no_stop[of "u ''__#PWD_''" "of_char CHR ''#''" dd x]
  by (simp add: received_pwd_def u_Cons)

lemma on_pwd_hash_auth:
  assumes "pwd a = Some p" and "of_char CHR ''#'' \<in> set p"
  shows "authorized (on_pwd a d dd s) = authorized s"
proof (cases "received_pwd dd")
  case None
  then show ?thesis by (simp add: on_pwd_def)
next
  case (Some x)
  then have "x \<noteq> p" using received_pwd_no_hash assms(2) by blast
  with Some assms(1) show ?thesis by (simp add: on_pwd_def)
qed

lemma run_handlers_auth:
  "(\<And>h t. h \<in> set hs \<Longrightarrow> authorized (h t) = authorized t)
   \<Longrightarrow> authorized (run_handlers hs s) = authorized s"
proof (induction hs arbitrary: s)
  case Nil
  show ?case by simp
next
  case (Cons h hs)
  have "authorized (h s) = authorized s" using Cons.prems by simp
  moreover have "authorized (run_handlers hs (h s)) = authorized (h s)" using Cons by simp
  ultimately show ?case by simp
qed

lemma handlers_auth:
  "authorized (on_keepalive a d s) = authorized s"
  "truthy (pwd a) \<Longrightarrow> authorized (on_version a d dd s) = authorized s"
  "authorized (on_getver d s) = authorized s"
  "authorized (on_get_ka_timeout a d s) = authorized s"
  "authorized (on_ask a d s) = authorized s"
  "authorized (on_com_params a d dd s) = authorized s"
  "authorized (on_disconnect d s) = authorized s"
  by (simp_all add: on_keepalive_def on_version_def ver_loop_auth on_getver_eq
      on_get_ka_timeout_eq on_ask_def on_com_params_def on_disconnect_def Let_def
      split: option.splits)

lemma control_chunk_hash_auth:
  assumes "pwd a = Some p" and "of_char CHR ''#'' \<in> set p"
  shows "authorized (control_chunk a d s) = authorized s"
proof -
  have t: "truthy (pwd a)" by (rule hash_pwd_truthy[OF assms])
  show ?thesis
    unfolding control_chunk_def Let_def
    by (rule run_handlers_auth)
       (auto simp: handlers_auth t on_pwd_hash_auth[OF assms])
qed

lemma srv_recv_hash_auth:
  assumes "pwd a = Some p" and "of_char CHR ''#'' \<in> set p"
  shows "authorized (srv_recv a c s) = authorized s"
  by (simp add: srv_recv_def Let_def control_chunk_hash_auth[OF assms] data_chunk_def)

lemma srv_step_hash_auth:
  assumes "pwd a = Some p" and "of_char CHR ''#'' \<in> set p"
  shows "authorized (srv_step a s ev) = authorized s"
  by (cases ev) (simp_all add: srv_recv_hash_auth[OF assms] serial_to_socket_def)

lemma srv_run_hash_auth:
  assumes "pwd a = Some p" and "of_char CHR ''#'' \<in> set p"
  shows "authorized (srv_run a evs s) = authorized s"
  unfolding srv_run_def
  by (induction evs arbitrary: s) (simp_all add: srv_step_hash_auth[OF assms])

subsection \<open>What the counters count\<close>

lemma re_sub_id: "\<not> contains opener s \<Longrightarrow> re_sub opener tail s = s"
  by (induction s) simp_all

lemma sub_frames_bytes_id: "\<not> contains ''__#'' c \<Longrightarrow> sub_frames_bytes c = c"
  by (simp add: sub_frames_bytes_def re_sub_id)

lemma tail_no_hash_frame:
  assumes "CHR ''#'' \<notin> set f"
  shows "tail_no_hash (f @ ''#__'' @ q) = Some (length f + 3)"
proof -
  have d: "dropWhile (\<lambda>c. c \<noteq> CHR ''#'') (f @ ''#__'' @ q) = ''#__'' @ q"
    using assms by (induction f) auto
  have t: "takeWhile (\<lambda>c. c \<noteq> CHR ''#'') (f @ ''#__'' @ q) = f"
    using assms by (induction f) auto
  show ?thesis unfolding tail_no_hash_def d t by simp
qed

lemma not_prefix_opener:
  assumes "\<not> contains ''__#'' (x # p)"
  shows "\<not> prefix ''__#'' (x # p @ ''__#'' @ r)"
proof (cases p)
  case Nil
  then show ?thesis by simp
next
  case c1: (Cons y p1)
  show ?thesis
  proof (cases p1)
    case Nil
    with c1 show ?thesis by simp
  next
    case (Cons z p2)
    with c1 assms show ?thesis by simp
  qed
qed

lemma drop_frame:
  "drop (5 + length f) (a # b # f @ c # d # e # q) = q"
proof -
  have h: "5 + length f = Suc (Suc (length f + 3))" by simp
  have 1: "drop (length f + 3) (f @ c # d # e # q) = q" by simp
  show ?thesis unfolding h drop_Suc_Cons by (rule 1)
qed

lemma sub_frames_bytes_frame:
  assumes "\<not> contains ''__#'' p" and "CHR ''#'' \<notin> set f"
  shows "sub_frames_bytes (p @ ''__#'' @ f @ ''#__'' @ q) = p @ sub_frames_bytes q"
  using assms(1)
proof (induction p)
  case Nil
  have "tail_no_hash (drop 3 (''__#'' @ f @ ''#__'' @ q)) = Some (length f + 3)"
    using tail_no_hash_frame[OF assms(2)] by simp
  then show ?case by (simp add: sub_frames_bytes_def drop_frame)
next
  case (Cons x p)
  have n: "\<not> prefix ''__#'' (x # p @ ''__#'' @ f @ ''#__'' @ q)"
    using not_prefix_opener[OF Cons.prems] .
  have c: "\<not> contains ''__#'' p" using Cons.prems by simp
  have "re_sub ''__#'' tail_no_hash (x # p @ ''__#'' @ f @ ''#__'' @ q)
        = x # re_sub ''__#'' tail_no_hash (p @ ''__#'' @ f @ ''#__'' @ q)"
    using n by (simp del: prefix_code)
  then show ?case using Cons.IH[OF c] by (simp add: sub_frames_bytes_def)
qed

lemma field_after_some:
  assumes "mark \<noteq> []" and "contains mark s"
  shows "field_after mark stop s \<noteq> None"
proof -
  have "2 \<le> length (split_py mark s)"
    using split_from_two[OF assms] by (simp add: split_py_def)
  then obtain r where r: "index_py (split_py mark s) 1 = Some r"
    by (simp add: index_py_def)
  have "split_py stop r \<noteq> []" by (simp add: split_py_def split_from_nonempty)
  then have "index_py (split_py stop r) 0 \<noteq> None" by (simp add: index_py_def)
  with r show ?thesis by (simp add: field_after_def)
qed

lemma dropWhile_keeps:
  assumes "m \<noteq> []" and "\<not> P (hd m)"
  shows "\<exists>p'. dropWhile P (p @ m @ q) = p' @ m @ q"
proof (induction p)
  case Nil
  from assms obtain x xs where "m = x # xs" by (cases m) auto
  with assms(2) have "dropWhile P (m @ q) = m @ q" by simp
  then show ?case by (metis append_Nil)
next
  case (Cons x p)
  show ?case
  proof (cases "P x")
    case True
    with Cons show ?thesis by simp
  next
    case False
    then have "dropWhile P ((x # p) @ m @ q) = (x # p) @ m @ q" by simp
    then show ?thesis by blast
  qed
qed

lemma contains_strip_py:
  assumes "m \<noteq> []" and "\<not> is_space (hd m)" and "\<not> is_space (last m)" and "contains m s"
  shows "contains m (strip_py s)"
proof -
  from assms(4) obtain p q where s: "s = p @ m @ q" by (auto simp: contains_iff)
  obtain p' where 1: "dropWhile is_space s = p' @ m @ q"
    unfolding s using dropWhile_keeps[where P = is_space and m = m, OF assms(1,2)] by blast
  have rm: "rev m \<noteq> []" "\<not> is_space (hd (rev m))"
    using assms(1,3) by (simp_all add: hd_rev)
  obtain q' where 2: "dropWhile is_space (rev q @ rev m @ rev p') = q' @ rev m @ rev p'"
    using dropWhile_keeps[where P = is_space and m = "rev m", OF rm] by blast
  have "strip_py s = p' @ m @ rev q'"
    unfolding strip_py_def 1 using 2 by simp
  then show ?thesis unfolding contains_iff by blast
qed

lemma serial_written_simps [simp]:
  "serial_written [] = []"
  "serial_written (e # es) = (case e of SerWrite d \<Rightarrow> [d] | _ \<Rightarrow> []) @ serial_written es"
  "serial_written (xs @ ys) = serial_written xs @ serial_written ys"
  by (simp_all add: serial_written_def)

lemma srv_recv_forwards:
  assumes "srv_forwards a c s"
  shows "session_in (srv_recv a c s) = session_in s + length (packet_buffer s @ c)"
    and "serial_written (trace (srv_recv a c s)) = serial_written (trace s) @ [packet_buffer s @ c]"
  using assms
  by (auto simp: srv_forwards_def srv_recv_def data_chunk_def Let_def)

lemma srv_recv_le:
  "session_in (srv_recv a c s) \<le> session_in s + length (sub_frames_bytes (packet_buffer s @ c))"
proof -
  have ctl: "session_in (control_chunk a d t) = session_in t" for d t
    using control_chunk_io[of t a d] by (simp add: same_io_def)
  have dat: "\<not> contains ''__#'' d \<Longrightarrow>
             session_in (data_chunk a d t) \<le> session_in t + length (sub_frames_bytes d)" for d t
    by (simp add: data_chunk_def sub_frames_bytes_id)
  show ?thesis
    using dat[of "packet_buffer s @ c" "s\<lparr>packet_buffer := []\<rparr>"] dat[of c s]
    by (simp add: srv_recv_def Let_def ctl)
qed

lemma serial_to_socket_exact:
  "session_out (serial_to_socket d s) = session_out s + (if authorized s then length d else 0)"
  "bytes_read (trace (serial_to_socket d s))
     = bytes_read (trace s) + (if authorized s then length d else 0)"
  by (simp_all add: serial_to_socket_def)

lemma old_serial_to_socket_exact:
  "session_out (old_serial_to_socket i d s) + bytes_read (trace s)
     = session_out s + bytes_read (trace (old_serial_to_socket i d s))"
  by (simp add: old_serial_to_socket_def)

lemma br_quiet_refl [simp]: "br_quiet s s"
  by (simp add: br_quiet_def)

lemma br_quiet_trans: "br_quiet s t \<Longrightarrow> br_quiet t r \<Longrightarrow> br_quiet s r"
  by (simp add: br_quiet_def)

lemma br_srv_ver_quiet: "br_quiet s (br_srv_ver a d s)"
  by (simp add: br_srv_ver_def br_quiet_def Let_def split: option.splits)

lemma br_ka_timeout_quiet: "br_quiet s (br_ka_timeout f a d s)"
  by (simp add: br_ka_timeout_def br_quiet_def split: option.splits)

lemma br_debug_rx_quiet: "br_quiet s (br_debug_rx a d s)"
  by (simp add: br_debug_rx_def br_quiet_def Let_def)

lemma br_com_params_quiet: "br_quiet s (br_com_params a d s)"
  by (simp add: br_com_params_def br_quiet_def Let_def split: option.splits)

lemma br_ready_fields [simp]:
  "serial_ready (br_srv_ver a d s) = serial_ready s"
  "serial_ready (br_ka_timeout f a d s) = serial_ready s"
  "serial_ready (br_debug_rx a d s) = serial_ready s"
  by (simp_all add: br_srv_ver_def br_ka_timeout_def br_debug_rx_def Let_def split: option.splits)

lemma ascii_com_params: "ascii ''__#COM_PARAMS_''"
  by (simp add: ascii_def)

lemma br_com_params_ready:
  "serial_ready (br_com_params a d s) = (serial_ready s \<or> contains ''__#COM_PARAMS_'' d)"
proof (cases "contains ''__#COM_PARAMS_'' d")
  case False
  then show ?thesis by (simp add: br_com_params_def)
next
  case True
  have "contains (u ''__#COM_PARAMS_'') (decode_replace d)"
    using contains_decode_replace[OF ascii_com_params True] .
  then have "contains (u ''__#COM_PARAMS_'') (strip_py (decode_replace d))"
    by (intro contains_strip_py) (simp_all add: u_def is_space_def)
  then have "field_after (u ''__#COM_PARAMS_'') (u ''#__'') (strip_py (decode_replace d)) \<noteq> None"
    by (intro field_after_some) (simp_all add: u_def)
  with True show ?thesis by (auto simp: br_com_params_def Let_def)
qed

lemma br_replies_none:
  "br_replies a c s = None \<longleftrightarrow>
     \<not> (contains GETVER_CMD c \<or> \<not> contains ASK_CMD c \<or> encode (br_params a) \<noteq> None)"
  by (auto simp: br_replies_def encode_id_msg split: option.splits)

lemma br_replies_quiet:
  "br_replies a c s = Some t \<Longrightarrow> br_quiet s t \<and> serial_ready t = serial_ready s"
  by (auto simp: br_replies_def br_quiet_def split: if_splits option.splits)

lemma br_to_serial_exact:
  "out_count (br_to_serial a d s)
     = out_count s + (if serial_ready s \<and> d \<noteq> [] \<and> (namedpipe a = None \<or> pipe_connected s)
                      then length d else 0)"
  "serial_written (trace (br_to_serial a d s))
     = serial_written (trace s)
       @ (if serial_ready s \<and> d \<noteq> [] \<and> (namedpipe a = None \<or> pipe_connected s)
          then [d] else [])"
  by (auto simp: br_to_serial_def Let_def)

lemma no_opener_no_frame:
  assumes "\<not> contains ''__#'' c"
  shows "\<not> contains BAD_PWD_MSG c" "\<not> contains ASK_CMD c" "\<not> contains ''__#COM_PARAMS_'' c"
proof -
  have "contains ''__#'' BAD_PWD_MSG" "contains ''__#'' ASK_CMD" "contains ''__#'' ''__#COM_PARAMS_''"
    by (simp_all add: BAD_PWD_MSG_def ASK_CMD_def)
  then show "\<not> contains BAD_PWD_MSG c" "\<not> contains ASK_CMD c" "\<not> contains ''__#COM_PARAMS_'' c"
    using assms contains_trans by blast+
qed

lemma br_handlers_quiet:
  "br_quiet s (br_com_params a c (br_debug_rx a c (br_ka_timeout f a c (br_srv_ver a c s))))"
  using br_quiet_trans[OF br_quiet_trans[OF br_quiet_trans[OF br_srv_ver_quiet
    br_ka_timeout_quiet] br_debug_rx_quiet] br_com_params_quiet] .

lemma br_recv_exact:
  "out_count (br_recv f a c b)
     = out_count b + (if br_forwards a c b then length (sub_frames_bytes c) else 0)
   \<and> serial_written (trace (br_recv f a c b))
     = serial_written (trace b) @ (if br_forwards a c b then [sub_frames_bytes c] else [])"
proof -
  let ?s1 = "br_com_params a c (br_debug_rx a c (br_ka_timeout f a c (br_srv_ver a c b)))"
  consider (empty) "c = []" | (disc) "c \<noteq> []" "contains DISCONNECT_CMD c"
    | (bad) "c \<noteq> []" "\<not> contains DISCONNECT_CMD c" "contains ''__#'' c" "contains BAD_PWD_MSG c"
    | (ctl) "c \<noteq> []" "\<not> contains DISCONNECT_CMD c" "contains ''__#'' c" "\<not> contains BAD_PWD_MSG c"
    | (dat) "c \<noteq> []" "\<not> contains DISCONNECT_CMD c" "\<not> contains ''__#'' c"
    by blast
  then show ?thesis
  proof cases
    case empty
    then show ?thesis by (simp add: br_recv_def br_forwards_def)
  next
    case disc
    then show ?thesis by (simp add: br_recv_def br_forwards_def)
  next
    case bad
    then show ?thesis by (simp add: br_recv_def br_forwards_def)
  next
    case ctl
    have q: "br_quiet b ?s1" by (rule br_handlers_quiet)
    have r: "serial_ready ?s1 = (serial_ready b \<or> contains ''__#COM_PARAMS_'' c)"
      by (simp add: br_com_params_ready)
    show ?thesis
    proof (cases "br_replies a c ?s1")
      case None
      then have "\<not> br_forwards a c b" by (simp add: br_replies_none br_forwards_def)
      with None ctl q show ?thesis by (simp add: br_recv_def Let_def br_quiet_def)
    next
      case (Some s2)
      then have ok: "contains GETVER_CMD c \<or> \<not> contains ASK_CMD c \<or> encode (br_params a) \<noteq> None"
        using br_replies_none[of a c ?s1] by simp
      from Some have q2: "br_quiet ?s1 s2" and r2: "serial_ready s2 = serial_ready ?s1"
        using br_replies_quiet by blast+
      have f: "br_forwards a c b \<longleftrightarrow>
                 serial_ready s2 \<and> sub_frames_bytes c \<noteq> [] \<and> (namedpipe a = None \<or> pipe_connected s2)"
        using ctl ok q q2 r r2 by (auto simp: br_forwards_def br_quiet_def)
      have e: "br_recv f a c b
                 = (if sub_frames_bytes c = [] then s2 else br_to_serial a (sub_frames_bytes c) s2)"
        using ctl Some by (simp add: br_recv_def Let_def)
      show ?thesis
        unfolding e using f q q2 by (auto simp: br_to_serial_exact br_quiet_def)
    qed
  next
    case dat
    have f: "br_forwards a c b \<longleftrightarrow> serial_ready b \<and> (namedpipe a = None \<or> pipe_connected b)"
      using dat no_opener_no_frame[OF dat(3)] by (auto simp: br_forwards_def sub_frames_bytes_id)
    show ?thesis
      using dat f by (auto simp: br_recv_def br_to_serial_exact sub_frames_bytes_id)
  qed
qed

lemma br_serial_exact:
  "in_count (br_serial a d b)
     = in_count b + (if namedpipe a = None \<or> pipe_connected b then length d else 0)"
  by (simp add: br_serial_def)

section \<open>The claims\<close>

text \<open>
  C1 (pre-authorization silence): the server does not keep it from the second session on.
  With the password \<open>secret\<close>, a bridge is authorized and closes the connection; nothing
  stops the sender thread of that session.  The next peer is accepted and has sent nothing.
  When four bytes wait on the serial endpoint, the old sender reads them and adds them to
  the counters, which are those of the new session: the peer is not authorized, \<open>out\<close> is 4,
  and the bytes are taken from the serial endpoint and lost.
\<close>

theorem old_sender_breaks_silence:
  "\<not> authorized (srv_run (example_args (Some (u ''secret'')) False) [OldSerialWaiting 0 ''boot'']
       (srv_next (example_args (Some (u ''secret'')) False)
          (srv_close (example_args (Some (u ''secret'')) False)
             (srv_run (example_args (Some (u ''secret'')) False)
                [NetRecv ''__#BR_VER_0.0.70#____#PWD_secret#__'', NetRecv []]
                (srv_accept (example_args (Some (u ''secret'')) False) 0 0)))))
   \<and> session_out (srv_run (example_args (Some (u ''secret'')) False)
       [OldSerialWaiting 0 ''boot'']
       (srv_next (example_args (Some (u ''secret'')) False)
          (srv_close (example_args (Some (u ''secret'')) False)
             (srv_run (example_args (Some (u ''secret'')) False)
                [NetRecv ''__#BR_VER_0.0.70#____#PWD_secret#__'', NetRecv []]
                (srv_accept (example_args (Some (u ''secret'')) False) 0 0))))) = 4
   \<and> new_effects
        (srv_next (example_args (Some (u ''secret'')) False)
          (srv_close (example_args (Some (u ''secret'')) False)
             (srv_run (example_args (Some (u ''secret'')) False)
                [NetRecv ''__#BR_VER_0.0.70#____#PWD_secret#__'', NetRecv []]
                (srv_accept (example_args (Some (u ''secret'')) False) 0 0))))
        (srv_run (example_args (Some (u ''secret'')) False) [OldSerialWaiting 0 ''boot'']
          (srv_next (example_args (Some (u ''secret'')) False)
            (srv_close (example_args (Some (u ''secret'')) False)
               (srv_run (example_args (Some (u ''secret'')) False)
                  [NetRecv ''__#BR_VER_0.0.70#____#PWD_secret#__'', NetRecv []]
                  (srv_accept (example_args (Some (u ''secret'')) False) 0 0)))))
      = [SerRead ''boot'']"
  by (simp add: srv_eval new_effects_def)


text \<open>
  C2 (payload beside control frames reaches the serial endpoint): the server does not do
  this.  In an authorized session (password \<open>secret\<close>, bridge identified and authorized by the
  first chunk) the chunk \<open>A__#KEEPALIVE#__B\<close> leaves nothing written to the serial endpoint
  and the counter at zero: \<open>A\<close> and \<open>B\<close> are lost.  The bridge, on the same chunk and
  once its serial side is ready, removes the frame and writes \<open>AB\<close>.
\<close>

theorem payload_beside_frame_dropped:
  "authorized (srv_run (example_args (Some (u ''secret'')) False)
       [NetRecv ''__#BR_VER_0.0.70#____#PWD_secret#__'', NetRecv ''A__#KEEPALIVE#__B'']
       (srv_accept (example_args (Some (u ''secret'')) False) 0 0))
   \<and> serial_written (trace (srv_run (example_args (Some (u ''secret'')) False)
       [NetRecv ''__#BR_VER_0.0.70#____#PWD_secret#__'', NetRecv ''A__#KEEPALIVE#__B'']
       (srv_accept (example_args (Some (u ''secret'')) False) 0 0))) = []
   \<and> session_in (srv_run (example_args (Some (u ''secret'')) False)
       [NetRecv ''__#BR_VER_0.0.70#____#PWD_secret#__'', NetRecv ''A__#KEEPALIVE#__B'']
       (srv_accept (example_args (Some (u ''secret'')) False) 0 0)) = 0
   \<and> serial_written (trace (br_recv int_py (example_args None False) ''A__#KEEPALIVE#__B''
       (br_recv int_py (example_args None False) ''__#COM_PARAMS_SRV-A 9600 8N1N#__'' br_init)))
       = [''AB'']"
  by (simp add: srv_eval br_eval serial_written_def)

text \<open>
  C3 (scenario S4): the server does not deliver the payloads.  In a session without
  password, authorized from the start, the chunk \<open>A__#GET\<close> is held back whole and joined to
  the next, \<open>VER#__B__#KEEPALIVE#__C\<close>; the session ends in the state in which the whole
  input, received at once, leaves it.  In that state \<open>GETVER\<close> has been answered by one
  \<open>SRV_VER_\<close> frame and that is all: nothing has been written to the serial endpoint and
  the counter is zero, so \<open>A\<close>, \<open>B\<close> and \<open>C\<close> are lost.  What reaches the serial endpoint
  depends on where the stream is cut: received as \<open>A\<close> and then the rest, the same stream
  has \<open>A\<close> written.  The bridge, on the whole input and once its serial side is ready,
  answers \<open>GETVER\<close>, removes both frames and writes \<open>ABC\<close>.
\<close>

theorem S4_payload_lost:
  "authorized (srv_accept (example_args None False) 0 0)
   \<and> srv_run (example_args None False)
         [NetRecv ''A__#GET'', NetRecv ''VER#__B__#KEEPALIVE#__C'']
         (srv_accept (example_args None False) 0 0)
       = srv_run (example_args None False) [NetRecv ''A__#GETVER#__B__#KEEPALIVE#__C'']
           (srv_accept (example_args None False) 0 0)
   \<and> new_effects (srv_accept (example_args None False) 0 0)
         (srv_run (example_args None False)
            [NetRecv ''A__#GET'', NetRecv ''VER#__B__#KEEPALIVE#__C'']
            (srv_accept (example_args None False) 0 0))
       = [Send ''__#SRV_VER_0.0.53#__'']
   \<and> session_in (srv_run (example_args None False)
         [NetRecv ''A__#GET'', NetRecv ''VER#__B__#KEEPALIVE#__C'']
         (srv_accept (example_args None False) 0 0)) = 0
   \<and> new_effects (srv_accept (example_args None False) 0 0)
         (srv_run (example_args None False)
            [NetRecv ''A'', NetRecv ''__#GETVER#__B__#KEEPALIVE#__C'']
            (srv_accept (example_args None False) 0 0))
       = [SerWrite ''A'', Send ''__#SRV_VER_0.0.53#__'']
   \<and> new_effects (br_init\<lparr>serial_ready := True\<rparr>)
         (br_recv int_py (example_args None False) ''A__#GETVER#__B__#KEEPALIVE#__C''
            (br_init\<lparr>serial_ready := True\<rparr>))
       = [Send ''__#BR_VER_0.0.70#__'', SerWrite ''ABC'']"
  by (simp add: srv_eval br_eval new_effects_def)

text \<open>
  C4 (bounded buffering of a partial frame), as the code has it: there is no cap.  Take a
  session whose receive loop is running and a sequence of non-empty chunks received one
  after the other, such that the first chunk, joined to the bytes already held back,
  contains \<open>__#\<close>, and such that \<open>#__\<close> occurs nowhere in the bytes held back followed by
  all the chunks.  Then the server holds back all of these bytes in \<open>packet_buffer\<close>,
  however many they are, and does nothing else: nothing is written to the serial endpoint,
  sent or counted.  The claim as stated (at most 512 bytes are held, the rest is emitted as
  payload) fails at a chunk of 603 bytes in an authorized session.
\<close>

theorem unterminated_frame_held:
  assumes "[] \<notin> set chunks" and "running s" and "\<not> disconnect_requested s"
    and "chunks \<noteq> []"
    and "contains ''__#'' (packet_buffer s @ hd chunks)"
    and "\<not> contains ''#__'' (packet_buffer s @ concat chunks)"
  shows "srv_run a (map NetRecv chunks) s = s\<lparr>packet_buffer := packet_buffer s @ concat chunks\<rparr>"
  using assms
proof (induction chunks arbitrary: s)
  case Nil
  then show ?case by simp
next
  case (Cons c cs)
  let ?t = "s\<lparr>packet_buffer := packet_buffer s @ c\<rparr>"
  have n: "\<not> contains ''#__'' (packet_buffer s @ c)"
    using Cons.prems(6) not_contains_prefix[of "''#__''" "packet_buffer s @ c" "concat cs"] by simp
  have cn: "c \<noteq> []" and cs: "[] \<notin> set cs" using Cons.prems(1) by auto
  have "srv_recv a c s = ?t"
    using cn Cons.prems(5) n by (intro srv_recv_hold) simp_all
  then have st: "srv_step a s (NetRecv c) = ?t"
    using Cons.prems(2,3) by simp
  show ?case
  proof (cases "cs = []")
    case True
    with st show ?thesis by (simp add: srv_run_def)
  next
    case False
    have "contains ''__#'' (packet_buffer ?t @ hd cs)"
      using Cons.prems(5) contains_append_left[of "''__#''" "packet_buffer s @ c" "hd cs"] by simp
    moreover have "\<not> contains ''#__'' (packet_buffer ?t @ concat cs)"
      using Cons.prems(6) by simp
    ultimately have "srv_run a (map NetRecv cs) ?t = ?t\<lparr>packet_buffer := packet_buffer ?t @ concat cs\<rparr>"
      using Cons.IH[of ?t] cs Cons.prems(2,3) False by simp
    with st show ?thesis by (simp add: srv_run_def)
  qed
qed

theorem unterminated_frame_held_witness:
  "running (srv_accept (example_args None False) 0 0)
   \<and> \<not> disconnect_requested (srv_accept (example_args None False) 0 0)
   \<and> contains ''__#'' (packet_buffer (srv_accept (example_args None False) 0 0) @ ''A__#GET'')
   \<and> \<not> contains ''#__'' (packet_buffer (srv_accept (example_args None False) 0 0)
                            @ concat [''A__#GET'', ''VER'', ''#_''])
   \<and> srv_run (example_args None False) (map NetRecv [''A__#GET'', ''VER'', ''#_''])
         (srv_accept (example_args None False) 0 0)
       = (srv_accept (example_args None False) 0 0)\<lparr>packet_buffer := ''A__#GETVER#_''\<rparr>"
proof -
  let ?s = "srv_accept (example_args None False) 0 0"
  let ?cs = "[''A__#GET'', ''VER'', ''#_'']"
  have b: "packet_buffer ?s = []" by (simp add: srv_accept_def)
  have h1: "[] \<notin> set ?cs" by simp
  have h2: "running ?s" by (simp add: srv_accept_def)
  have h3: "\<not> disconnect_requested ?s" by (simp add: srv_accept_def)
  have h4: "?cs \<noteq> []" by simp
  have h5: "contains ''__#'' (packet_buffer ?s @ hd ?cs)" unfolding b by simp
  have h6: "\<not> contains ''#__'' (packet_buffer ?s @ concat ?cs)" unfolding b by simp
  have r: "srv_run (example_args None False) (map NetRecv ?cs) ?s
             = ?s\<lparr>packet_buffer := packet_buffer ?s @ concat ?cs\<rparr>"
    by (rule unterminated_frame_held[OF h1 h2 h3 h4 h5 h6])
  have c: "packet_buffer ?s @ concat ?cs = ''A__#GETVER#_''" unfolding b by simp
  show ?thesis using h2 h3 h5 h6 r unfolding c by simp
qed

theorem buffer_cap_counterexample: "512 < length (packet_buffer (srv_recv (example_args None False)
                 (''__#'' @ replicate 600 (CHR ''A''))
                 (srv_accept (example_args None False) 0 0)))
   \<and> authorized (srv_accept (example_args None False) 0 0)
   \<and> serial_written (trace (srv_recv (example_args None False)
                 (''__#'' @ replicate 600 (CHR ''A''))
                 (srv_accept (example_args None False) 0 0))) = []"
proof -
  let ?s = "srv_accept (example_args None False) 0 0"
  let ?c = "''__#'' @ replicate 600 (CHR ''A'')"
  have b: "packet_buffer ?s = []" by (simp add: srv_accept_def)
  have t: "trace ?s = [Send GETVER_CMD, Send GET_KA_TIMEOUT_CMD]" by (simp add: srv_accept_def)
  have a: "authorized ?s" by (simp add: srv_accept_def example_args_def truthy_def)
  have 1: "?c \<noteq> []" by simp
  have 2: "contains ''__#'' (packet_buffer ?s @ ?c)" unfolding b by simp
  have 3: "\<not> contains ''#__'' (packet_buffer ?s @ ?c)"
    unfolding b by (simp add: not_contains_replicate not_prefix_replicate)
  have e: "srv_recv (example_args None False) ?c ?s = ?s\<lparr>packet_buffer := packet_buffer ?s @ ?c\<rparr>"
    by (rule srv_recv_hold[OF 1 2 3])
  show ?thesis unfolding e by (simp add: b t a serial_written_def)
qed


text \<open>
  C5 (the server's handling of a \<open>PWD_\<close> frame), as the code has it.  In a session with a
  password configured, take a chunk that (with what was held back) contains \<open>__#PWD_\<close> and
  \<open>#__\<close>, and let \<open>x\<close> be the text between the first \<open>__#PWD_\<close> and the next \<open>#\<close>; \<open>fr\<close> is
  the encoded \<open>COM_PARAMS_\<close> frame.  If \<open>x\<close> is the configured password, the session becomes
  authorized, and the server sends \<open>COM_PARAMS_\<close> and \<open>ASK_COM_PARAMS\<close> only to a peer that has
  identified itself as a bridge.  Otherwise the server sends \<open>BADPWD\<close>, sleeps 500 ms, leaves
  the receive loop and only then closes the connection; nothing is written to the serial
  endpoint.  The claim as stated (the two frames are sent whenever the password matches)
  fails for a client that sends the right password.
\<close>

theorem pwd_frame_handling:
  assumes "truthy (pwd a)" and "running s" and "\<not> disconnect_requested s" and "chunk \<noteq> []"
    and "contains ''__#PWD_'' (packet_buffer s @ chunk)"
    and "contains ''#__'' (packet_buffer s @ chunk)"
    and "received_pwd (decode_replace (packet_buffer s @ chunk)) = Some x"
    and "encode (srv_params a) = Some fr"
  shows "(if Some x = pwd a
          then authorized (srv_recv a chunk s)
             \<and> suffix (Log Password_Correct
                        # (if client_type (srv_recv a chunk s) = u ''BR''
                           then [Send fr, Send ASK_CMD] else []))
                 (trace (srv_recv a chunk s))
          else \<not> running (srv_recv a chunk s)
             \<and> authorized (srv_recv a chunk s) = authorized s
             \<and> suffix [Log Invalid_Password, Send BAD_PWD_MSG, Sleep 500]
                 (trace (srv_recv a chunk s))
             \<and> serial_written (trace (srv_recv a chunk s)) = serial_written (trace s)
             \<and> trace (srv_close a (srv_recv a chunk s))
                 = trace (srv_recv a chunk s)
                   @ [Log (Session_ended (session_in s) (session_out s)), Close])"
proof -
  let ?d = "packet_buffer s @ chunk"
  let ?dd = "decode_replace ?d"
  let ?t = "before_pwd a ?d (s\<lparr>packet_buffer := []\<rparr>)"
  let ?p = "on_pwd a ?d ?dd ?t"
  have e: "srv_recv a chunk s = run_handlers [on_disconnect ?d] ?p"
    by (rule srv_recv_pwd[OF assms(2,4,5,6,8)])
  have io: "same_io s ?t"
    using same_io_trans[of s "s\<lparr>packet_buffer := []\<rparr>" ?t] before_pwd_io
    by (simp add: same_io_def)
  have au: "authorized ?t = authorized s" using before_pwd_auth[OF assms(1)] by simp
  have dr: "\<not> disconnect_requested ?t" using before_pwd_ctl(2)[OF assms(8)] assms(3) by simp
  show ?thesis
  proof (cases "Some x = pwd a")
    case True
    note m = on_pwd_match[OF assms(5,7) True[symmetric] assms(8), of ?t]
    show ?thesis
      unfolding e using True by (auto simp: m suffix_def)
  next
    case False
    note m = on_pwd_mismatch[OF assms(5,7) False, of ?t]
    have sw: "serial_written (trace ?t) = serial_written (trace s)"
      by (rule same_io_serial_written[OF io])
    have si: "session_in ?t = session_in s" "session_out ?t = session_out s"
      using io by (simp_all add: same_io_def)
    show ?thesis
      unfolding e using False au dr sw si
      by (simp add: m suffix_def srv_close_def serial_written_def Let_def)
  qed
qed

theorem pwd_frame_handling_witness:
  "truthy (pwd (example_args (Some (u ''secret'')) False))
   \<and> received_pwd (decode_replace ''__#PWD_wrong#__'') = Some (u ''wrong'')
   \<and> encode (srv_params (example_args (Some (u ''secret'')) False))
       = Some ''__#COM_PARAMS_SRV-A 9600 8N1N#__''
   \<and> \<not> running (srv_recv (example_args (Some (u ''secret'')) False) ''__#PWD_wrong#__''
           (srv_accept (example_args (Some (u ''secret'')) False) 0 0))
   \<and> suffix [Log Invalid_Password, Send BAD_PWD_MSG, Sleep 500]
         (trace (srv_recv (example_args (Some (u ''secret'')) False) ''__#PWD_wrong#__''
           (srv_accept (example_args (Some (u ''secret'')) False) 0 0)))
   \<and> received_pwd (decode_replace ''__#BR_VER_0.0.70#____#PWD_secret#__'') = Some (u ''secret'')
   \<and> authorized (srv_recv (example_args (Some (u ''secret'')) False)
         ''__#BR_VER_0.0.70#____#PWD_secret#__''
         (srv_accept (example_args (Some (u ''secret'')) False) 0 0))
   \<and> suffix [Log Password_Correct, Send ''__#COM_PARAMS_SRV-A 9600 8N1N#__'', Send ASK_CMD]
         (trace (srv_recv (example_args (Some (u ''secret'')) False)
            ''__#BR_VER_0.0.70#____#PWD_secret#__''
            (srv_accept (example_args (Some (u ''secret'')) False) 0 0)))"
proof -
  let ?a = "example_args (Some (u ''secret'')) False"
  let ?s = "srv_accept ?a 0 0"
  let ?w = "''__#PWD_wrong#__''"
  let ?m = "''__#BR_VER_0.0.70#____#PWD_secret#__''"
  let ?fr = "''__#COM_PARAMS_SRV-A 9600 8N1N#__''"
  have b: "packet_buffer ?s = []" by (simp add: srv_accept_def)
  have h1: "truthy (pwd ?a)" by (simp add: example_args_def truthy_def)
  have h2: "running ?s" by (simp add: srv_accept_def)
  have h3: "\<not> disconnect_requested ?s" by (simp add: srv_accept_def)
  have h8: "encode (srv_params ?a) = Some ?fr" by (simp add: srv_eval)
  have w4: "?w \<noteq> []" by simp
  have w5: "contains ''__#PWD_'' (packet_buffer ?s @ ?w)" unfolding b by simp
  have w6: "contains ''#__'' (packet_buffer ?s @ ?w)" unfolding b by simp
  have w7: "received_pwd (decode_replace ?w) = Some (u ''wrong'')"
    by (simp add: received_pwd_def field_after_def index_py_def)
  have w7': "received_pwd (decode_replace (packet_buffer ?s @ ?w)) = Some (u ''wrong'')"
    unfolding b using w7 by simp
  have wn: "(Some (u ''wrong'') = pwd ?a) = False" by (simp add: example_args_def)
  note rw = pwd_frame_handling[OF h1 h2 h3 w4 w5 w6 w7' h8, unfolded wn if_False]
  have m4: "?m \<noteq> []" by simp
  have m5: "contains ''__#PWD_'' (packet_buffer ?s @ ?m)" unfolding b by simp
  have m6: "contains ''#__'' (packet_buffer ?s @ ?m)" unfolding b by simp
  have m7: "received_pwd (decode_replace ?m) = Some (u ''secret'')"
    by (simp add: received_pwd_def field_after_def index_py_def)
  have m7': "received_pwd (decode_replace (packet_buffer ?s @ ?m)) = Some (u ''secret'')"
    unfolding b using m7 by simp
  have my: "(Some (u ''secret'') = pwd ?a) = True" by (simp add: example_args_def)
  have br: "(client_type (srv_recv ?a ?m ?s) = u ''BR'') = True" by (simp add: srv_eval)
  note rm = pwd_frame_handling[OF h1 h2 h3 m4 m5 m6 m7' h8, unfolded my br if_True]
  from rw have r1: "\<not> running (srv_recv ?a ?w ?s)" by (rule conjunct1)
  from rw have r2: "suffix [Log Invalid_Password, Send BAD_PWD_MSG, Sleep 500]
                      (trace (srv_recv ?a ?w ?s))" by blast
  from rm have r3: "authorized (srv_recv ?a ?m ?s)" by (rule conjunct1)
  from rm have r4: "suffix [Log Password_Correct, Send ?fr, Send ASK_CMD]
                      (trace (srv_recv ?a ?m ?s))" by (rule conjunct2)
  show ?thesis using h1 w7 h8 r1 r2 m7 r3 r4 by (intro conjI)
qed

theorem pwd_match_counterexample:
  "received_pwd (decode_replace ''__#CL_VER_0.0.56#____#PWD_secret#__'') = Some (u ''secret'')
   \<and> pwd (example_args (Some (u ''secret'')) False) = Some (u ''secret'')
   \<and> authorized (srv_recv (example_args (Some (u ''secret'')) False)
         ''__#CL_VER_0.0.56#____#PWD_secret#__''
         (srv_accept (example_args (Some (u ''secret'')) False) 0 0))
   \<and> new_effects (srv_accept (example_args (Some (u ''secret'')) False) 0 0)
         (srv_recv (example_args (Some (u ''secret'')) False)
            ''__#CL_VER_0.0.56#____#PWD_secret#__''
            (srv_accept (example_args (Some (u ''secret'')) False) 0 0))
       = [Log (Client_Identified (u ''CL'') (u ''0.0.56'')), Log Password_Correct]"
  by (simp add: srv_eval new_effects_def)


text \<open>
  C6 (the password is sent on connect), as the code has it.  With a password configured,
  the client sends \<open>PWD_<secret>\<close> (\<open>fr\<close>, the encoded message) right after its version frame,
  with or without TLS; the bridge sends it only when TLS is in use (\<open>is_sec\<close>), and without
  TLS goes on to \<open>GETVER\<close> with no \<open>PWD_\<close> frame.  The claim as stated (regardless of TLS)
  fails for a bridge run with \<open>--pwd secret\<close> and no TLS.
\<close>

theorem password_sent_on_connect:
  assumes "truthy (pwd a)" and "encode (pwd_msg a) = Some fr"
  shows "client_connect a
           = Some [Send ''__#CL_VER_0.0.56#__'', Send fr, Send GETVER_CMD, Send ASK_CMD]
       \<and> bridge_connect a
           = Some ([Send ''__#BR_VER_0.0.70#__''] @ (if is_sec a then [Send fr] else [])
                   @ [Send GETVER_CMD, Send GET_KA_TIMEOUT_CMD, Send ASK_CMD])"
  using assms by (simp add: client_connect_def bridge_connect_def encode_id_msg encode_cl_ver_msg)

theorem password_sent_on_connect_witness:
  "truthy (pwd (example_args (Some (u ''secret'')) True))
   \<and> encode (pwd_msg (example_args (Some (u ''secret'')) True)) = Some ''__#PWD_secret#__''
   \<and> is_sec (example_args (Some (u ''secret'')) True)
   \<and> client_connect (example_args (Some (u ''secret'')) True)
       = Some [Send ''__#CL_VER_0.0.56#__'', Send ''__#PWD_secret#__'', Send GETVER_CMD,
               Send ASK_CMD]
   \<and> bridge_connect (example_args (Some (u ''secret'')) True)
       = Some [Send ''__#BR_VER_0.0.70#__'', Send ''__#PWD_secret#__'', Send GETVER_CMD,
               Send GET_KA_TIMEOUT_CMD, Send ASK_CMD]"
proof -
  let ?a = "example_args (Some (u ''secret'')) True"
  have h1: "truthy (pwd ?a)" by (simp add: example_args_def truthy_def)
  have h2: "encode (pwd_msg ?a) = Some ''__#PWD_secret#__''"
    by (simp add: pwd_msg_def example_args_def)
  have t: "is_sec ?a = True" by (simp add: is_sec_def example_args_def)
  note r = password_sent_on_connect[OF h1 h2, unfolded t if_True append.simps]
  from r have r1: "client_connect ?a
       = Some [Send ''__#CL_VER_0.0.56#__'', Send ''__#PWD_secret#__'', Send GETVER_CMD,
               Send ASK_CMD]" by (rule conjunct1)
  from r have r2: "bridge_connect ?a
       = Some [Send ''__#BR_VER_0.0.70#__'', Send ''__#PWD_secret#__'', Send GETVER_CMD,
               Send GET_KA_TIMEOUT_CMD, Send ASK_CMD]" by (rule conjunct2)
  from t have t': "is_sec ?a" by simp
  show ?thesis using h1 h2 t' r1 r2 by (intro conjI)
qed

theorem password_without_tls_counterexample:
  "truthy (pwd (example_args (Some (u ''secret'')) False))
   \<and> bridge_connect (example_args (Some (u ''secret'')) False)
       = Some [Send ''__#BR_VER_0.0.70#__'', Send ''__#GETVER#__'',
               Send ''__#GET_KA_TIMEOUT#__'', Send ''__#ASK_COM_PARAMS#__'']"
  by (simp add: br_eval)


text \<open>
  C7 (keep-alive interval mismatch), as the code has it.  When the bridge receives a chunk
  with \<open>MY_KA_TIMEOUT_<n>\<close> (\<open>t\<close> is the text between the marker and the next \<open>#\<close>, and
  \<open>int\<close> reads it as \<open>n\<close>), it writes exactly one log line about the interval: \<open>OK\<close> when
  \<open>n\<close> is larger than its own interval, the risk warning when \<open>n\<close> is smaller or equal.
  Unless the chunk also carries \<open>DISCONNECT\<close> or \<open>BADPWD\<close>, the session goes on.  The claim as
  stated (risk warning when the remote interval is larger) fails for a local interval of 30
  and a remote one of 120.
\<close>

theorem keepalive_mismatch_policy:
  assumes "contains MY_KA_TIMEOUT_CMD chunk"
    and "field_after (u MY_KA_TIMEOUT_CMD) (u ''#'') (decode_replace chunk) = Some t"
    and "to_int t = Some n"
    and "\<not> contains DISCONNECT_CMD chunk" and "\<not> contains BAD_PWD_MSG chunk"
  shows "filter is_ka_log (new_effects s (br_recv to_int a chunk s))
           = [Log (if keepalive a < n then KeepAlive_OK n else KeepAlive_RISK n)]
       \<and> keep_running (br_recv to_int a chunk s) = keep_running s
       \<and> in_loop (br_recv to_int a chunk s) = in_loop s"
proof -
  have ne: "chunk \<noteq> []" using assms(1) by (auto simp: MY_KA_TIMEOUT_CMD_def)
  have "contains ''__#'' MY_KA_TIMEOUT_CMD" by (simp add: MY_KA_TIMEOUT_CMD_def)
  then have fr: "contains ''__#'' chunk" using assms(1) contains_trans by blast
  have same: "br_same s (br_recv to_int a chunk s)"
    by (rule br_recv_same[OF ne assms(4,5)])
  let ?k = "br_ka_timeout to_int a chunk (br_srv_ver a chunk s)"
  let ?s1 = "br_com_params a chunk (br_debug_rx a chunk ?k)"
  have "filter is_ka_log (trace ?k)
          = filter is_ka_log (trace s)
            @ [Log (if keepalive a < n then KeepAlive_OK n else KeepAlive_RISK n)]"
    using kl_ka_timeout[where f = to_int and s = "br_srv_ver a chunk s" and a = a,
        OF assms(1,2,3)]
    by (simp add: kl_srv_ver)
  then have "filter is_ka_log (trace ?s1)
          = filter is_ka_log (trace s)
            @ [Log (if keepalive a < n then KeepAlive_OK n else KeepAlive_RISK n)]"
    by (simp add: kl_com_params kl_debug_rx)
  then have "filter is_ka_log (trace (br_recv to_int a chunk s))
          = filter is_ka_log (trace s)
            @ [Log (if keepalive a < n then KeepAlive_OK n else KeepAlive_RISK n)]"
    unfolding br_recv_frames[OF ne assms(4) fr assms(5)] Let_def
    using kl_tail[where a = a and c = chunk and s = ?s1, unfolded Let_def] by simp
  moreover have "filter is_ka_log (trace (br_recv to_int a chunk s))
          = filter is_ka_log (trace s)
            @ filter is_ka_log (new_effects s (br_recv to_int a chunk s))"
    using same by (intro filter_new_effects) (simp add: br_same_def)
  ultimately have "filter is_ka_log (new_effects s (br_recv to_int a chunk s))
           = [Log (if keepalive a < n then KeepAlive_OK n else KeepAlive_RISK n)]"
    by simp
  with same show ?thesis by (simp add: br_same_def)
qed

theorem keepalive_mismatch_policy_witness:
  "contains MY_KA_TIMEOUT_CMD ''__#MY_KA_TIMEOUT_20#__''
   \<and> field_after (u MY_KA_TIMEOUT_CMD) (u ''#'') (decode_replace ''__#MY_KA_TIMEOUT_20#__'')
       = Some (u ''20'')
   \<and> int_py (u ''20'') = Some 20
   \<and> filter is_ka_log (new_effects br_init
         (br_recv int_py (example_args None False) ''__#MY_KA_TIMEOUT_20#__'' br_init))
       = [Log (KeepAlive_RISK 20)]
   \<and> keep_running (br_recv int_py (example_args None False) ''__#MY_KA_TIMEOUT_20#__'' br_init)
       = keep_running br_init
   \<and> in_loop (br_recv int_py (example_args None False) ''__#MY_KA_TIMEOUT_20#__'' br_init)
       = in_loop br_init"
proof -
  let ?c = "''__#MY_KA_TIMEOUT_20#__''"
  let ?a = "example_args None False"
  have h1: "contains MY_KA_TIMEOUT_CMD ?c" by (simp add: MY_KA_TIMEOUT_CMD_def)
  have h2: "field_after (u MY_KA_TIMEOUT_CMD) (u ''#'') (decode_replace ?c) = Some (u ''20'')"
    by (simp add: MY_KA_TIMEOUT_CMD_def field_after_def index_py_def)
  have h3: "int_py (u ''20'') = Some 20" by (simp add: num_eval int_eval)
  have h4: "\<not> contains DISCONNECT_CMD ?c" by (simp add: DISCONNECT_CMD_def)
  have h5: "\<not> contains BAD_PWD_MSG ?c" by (simp add: BAD_PWD_MSG_def)
  have k: "(if keepalive ?a < 20 then KeepAlive_OK 20 else KeepAlive_RISK 20) = KeepAlive_RISK 20"
    by (simp add: example_args_def)
  note r = keepalive_mismatch_policy[where to_int = int_py and s = br_init and a = ?a,
      OF h1 h2 h3 h4 h5, unfolded k]
  show ?thesis using h1 h2 h3 r by (intro conjI) blast+
qed

theorem keepalive_risk_counterexample:
  "keepalive ((example_args None False)\<lparr>keepalive := 30\<rparr>) < 120
   \<and> new_effects br_init
        (br_recv int_py ((example_args None False)\<lparr>keepalive := 30\<rparr>)
           ''__#MY_KA_TIMEOUT_120#__'' br_init)
       = [Log (KeepAlive_OK 120)]"
  by (simp add: br_eval num_eval int_eval new_effects_def)

text \<open>
  C8 (what the counters count), as the code has it.  The server's receive loop adds to
  \<open>in\<close> the number of bytes that it writes to the serial endpoint, never more than what is
  left of its data (the bytes held back followed by the chunk) once the frames \<open>__#...#__\<close>
  are removed; where the data has no \<open>__#\<close> and the session is authorized or has no
  password, it writes the data and adds its length.  A sender adds to \<open>out\<close> the bytes that
  it has read from the serial endpoint.  The bridge adds to \<open>OUT\<close> the length of the chunk
  after \<open>re.sub(b"__#[^#]*#__", b"", data)\<close>, which is what it writes to the serial endpoint,
  when the pass comes to that write, and nothing otherwise; it adds to \<open>IN\<close> the bytes read
  from the serial endpoint.  The removal leaves data without \<open>__#\<close> as it is and deletes a
  frame \<open>__#f#__\<close> whose body \<open>f\<close> has no \<open>#\<close>.  The client adds the length of every
  received chunk, control frames included.  The claim as stated (no role counts the bytes
  of a control frame) fails for the client receiving \<open>__#KEEPALIVE#__\<close>: 15 bytes are
  counted and nothing is displayed.
\<close>

theorem counters_count_filtered_payload:
  "(srv_forwards a c s \<longrightarrow>
      session_in (srv_recv a c s) = session_in s + length (packet_buffer s @ c)
      \<and> serial_written (trace (srv_recv a c s)) = serial_written (trace s) @ [packet_buffer s @ c])
   \<and> session_in (srv_recv a c s) \<le> session_in s + length (sub_frames_bytes (packet_buffer s @ c))
   \<and> session_in (srv_recv a c s) + bytes_written (trace s)
       = session_in s + bytes_written (trace (srv_recv a c s))
   \<and> session_out (serial_to_socket d s) = session_out s + (if authorized s then length d else 0)
   \<and> bytes_read (trace (serial_to_socket d s))
       = bytes_read (trace s) + (if authorized s then length d else 0)
   \<and> session_out (old_serial_to_socket i d s) + bytes_read (trace s)
       = session_out s + bytes_read (trace (old_serial_to_socket i d s))
   \<and> out_count (br_recv to_int a x b)
       = out_count b + (if br_forwards a x b then length (sub_frames_bytes x) else 0)
   \<and> serial_written (trace (br_recv to_int a x b))
       = serial_written (trace b) @ (if br_forwards a x b then [sub_frames_bytes x] else [])
   \<and> in_count (br_serial a d b)
       = in_count b + (if namedpipe a = None \<or> pipe_connected b then length d else 0)
   \<and> (\<not> contains ''__#'' x \<longrightarrow> sub_frames_bytes x = x)
   \<and> (\<not> contains ''__#'' p \<and> CHR ''#'' \<notin> set f \<longrightarrow>
        sub_frames_bytes (p @ ''__#'' @ f @ ''#__'' @ q) = p @ sub_frames_bytes q)
   \<and> recv_count (cl_recv a y k) = recv_count k + length y"
proof -
  have 1: "srv_forwards a c s \<longrightarrow>
      session_in (srv_recv a c s) = session_in s + length (packet_buffer s @ c)
      \<and> serial_written (trace (srv_recv a c s)) = serial_written (trace s) @ [packet_buffer s @ c]"
    using srv_recv_forwards[of a c s] by blast
  have 2: "\<not> contains ''__#'' p \<and> CHR ''#'' \<notin> set f \<longrightarrow>
        sub_frames_bytes (p @ ''__#'' @ f @ ''#__'' @ q) = p @ sub_frames_bytes q"
    using sub_frames_bytes_frame[of p f q] by blast
  have 3: "\<not> contains ''__#'' x \<longrightarrow> sub_frames_bytes x = x"
    using sub_frames_bytes_id[of x] by blast
  note b = br_recv_exact[of to_int a x b]
  show ?thesis
    by (intro conjI 1 2 3 srv_recv_le srv_recv_counts serial_to_socket_exact
        old_serial_to_socket_exact b[THEN conjunct1] b[THEN conjunct2] br_serial_exact
        cl_recv_counts)
qed

theorem counters_count_filtered_payload_witness:
  "srv_forwards (example_args None False) ''hi'' (srv_accept (example_args None False) 0 0)
   \<and> session_in (srv_recv (example_args None False) ''hi''
         (srv_accept (example_args None False) 0 0)) = 2
   \<and> serial_written (trace (srv_recv (example_args None False) ''hi''
         (srv_accept (example_args None False) 0 0))) = [''hi'']
   \<and> br_forwards (example_args None False) ''A__#KEEPALIVE#__B'' (br_init\<lparr>serial_ready := True\<rparr>)
   \<and> \<not> contains ''__#'' ''A'' \<and> CHR ''#'' \<notin> set ''KEEPALIVE''
   \<and> sub_frames_bytes ''A__#KEEPALIVE#__B'' = ''AB''
   \<and> out_count (br_recv int_py (example_args None False) ''A__#KEEPALIVE#__B''
         (br_init\<lparr>serial_ready := True\<rparr>)) = 2
   \<and> serial_written (trace (br_recv int_py (example_args None False) ''A__#KEEPALIVE#__B''
         (br_init\<lparr>serial_ready := True\<rparr>))) = [''AB'']
   \<and> recv_count (cl_recv (example_args None False) ''__#KEEPALIVE#__'' cl_init) = 15"
proof -
  let ?a = "example_args None False"
  let ?s = "srv_accept ?a 0 0"
  let ?b = "br_init\<lparr>serial_ready := True\<rparr>"
  let ?x = "''A__#KEEPALIVE#__B''"
  note r = counters_count_filtered_payload[of ?a "''hi''" ?s "''x''" 0 int_py ?x ?b
      "''A''" "''KEEPALIVE''" "''B''" "''__#KEEPALIVE#__''" cl_init]
  have h1: "srv_forwards ?a ''hi'' ?s"
    by (simp add: srv_forwards_def srv_accept_def example_args_def truthy_def)
  have i: "session_in ?s = 0" "packet_buffer ?s = []" "serial_written (trace ?s) = []"
    by (simp_all add: srv_accept_def)
  have s1: "session_in (srv_recv ?a ''hi'' ?s) = 2"
    using r h1 unfolding i by simp
  have s2: "serial_written (trace (srv_recv ?a ''hi'' ?s)) = [''hi'']"
    using r h1 unfolding i by simp
  have h2: "\<not> contains ''__#'' ''A''" "CHR ''#'' \<notin> set ''KEEPALIVE''" by simp_all
  have e: "sub_frames_bytes ''B'' = ''B''" by (simp add: sub_frames_bytes_def)
  have f: "sub_frames_bytes ?x = ''AB''"
    using r h2 e by simp
  have h3: "br_forwards ?a ?x ?b"
    unfolding br_forwards_def f
    by (simp add: br_init_def DISCONNECT_CMD_def BAD_PWD_MSG_def ASK_CMD_def example_args_def)
  have j: "out_count ?b = 0" "serial_written (trace ?b) = []" "recv_count cl_init = 0"
    by (simp_all add: br_init_def cl_init_def)
  have o: "out_count (br_recv int_py ?a ?x ?b) = 2"
    using r h3 unfolding f j by simp
  have w: "serial_written (trace (br_recv int_py ?a ?x ?b)) = [''AB'']"
    using r h3 unfolding f j by simp
  have k: "recv_count (cl_recv ?a ''__#KEEPALIVE#__'' cl_init) = 15"
    using r unfolding j by simp
  show ?thesis using h1 s1 s2 h3 h2 f o w k by (intro conjI)
qed

theorem client_counts_control_bytes_counterexample:
  "recv_count (cl_recv (example_args None False) ''__#KEEPALIVE#__'' cl_init) = 15
   \<and> trace (cl_recv (example_args None False) ''__#KEEPALIVE#__'' cl_init) = []"
  by (simp add: cl_eval num_eval)


text \<open>
  C9 (queries are answered before authentication).  In a server session with a password
  configured and the peer not authorized, a received chunk that (with what was held back)
  contains \<open>GETVER\<close>, \<open>GET_KA_TIMEOUT\<close> or \<open>ASK_COM_PARAMS\<close> makes the server send its
  \<open>SRV_VER_\<close>, \<open>MY_KA_TIMEOUT_\<close> or \<open>COM_PARAMS_\<close> frame (\<open>fr\<close>, the encoded parameter string)
  respectively: version and serial configuration go to an unauthenticated peer.
\<close>

theorem queries_answered_before_auth:
  assumes "truthy (pwd a)" and "\<not> authorized s" and "running s" and "chunk \<noteq> []"
  shows "(contains GETVER_CMD (packet_buffer s @ chunk) \<longrightarrow>
            Send ''__#SRV_VER_0.0.53#__'' \<in> set (new_effects s (srv_recv a chunk s)))
       \<and> (contains GET_KA_TIMEOUT_CMD (packet_buffer s @ chunk) \<longrightarrow>
            Send (''__#MY_KA_TIMEOUT_'' @ str_int (keepalive a) @ ''#__'')
              \<in> set (new_effects s (srv_recv a chunk s)))
       \<and> (contains ASK_CMD (packet_buffer s @ chunk) \<and> encode (srv_params a) = Some fr \<longrightarrow>
            Send fr \<in> set (new_effects s (srv_recv a chunk s)))"
proof -
  let ?d = "packet_buffer s @ chunk"
  let ?dd = "decode_replace ?d"
  let ?s0 = "s\<lparr>packet_buffer := []\<rparr>"
  let ?s2 = "on_version a ?d ?dd (on_keepalive a ?d ?s0)"
  let ?s3 = "on_getver ?d ?s2"
  let ?s4 = "on_get_ka_timeout a ?d ?s3"
  let ?s5 = "on_ask a ?d ?s4"
  let ?r = "run_handlers [on_com_params a ?d ?dd, on_pwd a ?d ?dd, on_disconnect ?d] ?s5"
  have e2: "extends ?s0 ?s2"
    using extends_trans[OF same_ctl_extends[OF on_keepalive_ctl] same_ctl_extends[OF on_version_ctl]] .
  have e3: "extends ?s2 ?s3" by (rule same_ctl_extends[OF on_getver_ctl])
  have e4: "extends ?s3 ?s4" by (rule same_ctl_extends[OF on_get_ka_timeout_ctl])
  have e5: "extends ?s4 ?s5" by (rule on_ask_extends)
  have e6: "extends ?s5 ?r" by (rule tail_extends)
  have p2: "prefix (trace s) (trace ?s2)" using e2 by (simp add: extends_def)
  have p3: "prefix (trace s) (trace ?s3)" using p2 e3 by (auto simp: extends_def)
  have p4: "prefix (trace s) (trace ?s4)" using p3 e4 by (auto simp: extends_def)
  have frames: "contains ''__#'' c \<and> contains ''#__'' c"
    if "contains GETVER_CMD c \<or> contains GET_KA_TIMEOUT_CMD c \<or> contains ASK_CMD c" for c
  proof -
    have "contains ''__#'' GETVER_CMD" "contains ''#__'' GETVER_CMD"
      "contains ''__#'' GET_KA_TIMEOUT_CMD" "contains ''#__'' GET_KA_TIMEOUT_CMD"
      "contains ''__#'' ASK_CMD" "contains ''#__'' ASK_CMD"
      by (simp_all add: GETVER_CMD_def GET_KA_TIMEOUT_CMD_def ASK_CMD_def)
    with that show ?thesis by (meson contains_trans)
  qed
  have unf: "srv_recv a chunk s = ?r" if "contains ''__#'' ?d \<and> contains ''#__'' ?d"
    using that assms(3,4) srv_recv_control[of chunk s a] control_chunk_unfold[of ?s0 a ?d]
    by simp
  have g: "Send ''__#SRV_VER_0.0.53#__'' \<in> set (new_effects s ?r)"
    if c: "contains GETVER_CMD ?d"
  proof -
    have "Send ''__#SRV_VER_0.0.53#__'' \<in> set (new_effects s ?s3)"
      using c p2 by (simp add: on_getver_eq new_effects_emit)
    moreover have "prefix (trace ?s3) (trace ?r)"
      using e4 e5 e6 by (auto simp: extends_def)
    ultimately show ?thesis by (rule new_effects_mono)
  qed
  have k: "Send (''__#MY_KA_TIMEOUT_'' @ str_int (keepalive a) @ ''#__'') \<in> set (new_effects s ?r)"
    if c: "contains GET_KA_TIMEOUT_CMD ?d"
  proof -
    have "Send (''__#MY_KA_TIMEOUT_'' @ str_int (keepalive a) @ ''#__'')
            \<in> set (new_effects s ?s4)"
      using c p3 by (simp add: on_get_ka_timeout_eq new_effects_emit)
    moreover have "prefix (trace ?s4) (trace ?r)"
      using e5 e6 by (auto simp: extends_def)
    ultimately show ?thesis by (rule new_effects_mono)
  qed
  have q: "Send fr \<in> set (new_effects s ?r)"
    if c: "contains ASK_CMD ?d" and f: "encode (srv_params a) = Some fr"
  proof -
    have "Send fr \<in> set (new_effects s ?s5)"
      using c f p4 by (simp add: on_ask_def new_effects_emit)
    moreover have "prefix (trace ?s5) (trace ?r)"
      using e6 by (auto simp: extends_def)
    ultimately show ?thesis by (rule new_effects_mono)
  qed
  show ?thesis using frames unf g k q by metis
qed

theorem queries_answered_before_auth_witness:
  "truthy (pwd (example_args (Some (u ''secret'')) False))
   \<and> \<not> authorized (srv_accept (example_args (Some (u ''secret'')) False) 0 0)
   \<and> running (srv_accept (example_args (Some (u ''secret'')) False) 0 0)
   \<and> encode (srv_params (example_args (Some (u ''secret'')) False))
       = Some ''__#COM_PARAMS_SRV-A 9600 8N1N#__''
   \<and> Send ''__#SRV_VER_0.0.53#__''
       \<in> set (new_effects (srv_accept (example_args (Some (u ''secret'')) False) 0 0)
             (srv_recv (example_args (Some (u ''secret'')) False)
                ''__#GETVER#____#GET_KA_TIMEOUT#____#ASK_COM_PARAMS#__''
                (srv_accept (example_args (Some (u ''secret'')) False) 0 0)))
   \<and> Send ''__#MY_KA_TIMEOUT_120#__''
       \<in> set (new_effects (srv_accept (example_args (Some (u ''secret'')) False) 0 0)
             (srv_recv (example_args (Some (u ''secret'')) False)
                ''__#GETVER#____#GET_KA_TIMEOUT#____#ASK_COM_PARAMS#__''
                (srv_accept (example_args (Some (u ''secret'')) False) 0 0)))
   \<and> Send ''__#COM_PARAMS_SRV-A 9600 8N1N#__''
       \<in> set (new_effects (srv_accept (example_args (Some (u ''secret'')) False) 0 0)
             (srv_recv (example_args (Some (u ''secret'')) False)
                ''__#GETVER#____#GET_KA_TIMEOUT#____#ASK_COM_PARAMS#__''
                (srv_accept (example_args (Some (u ''secret'')) False) 0 0)))"
proof -
  let ?a = "example_args (Some (u ''secret'')) False"
  let ?s = "srv_accept ?a 0 0"
  let ?c = "''__#GETVER#____#GET_KA_TIMEOUT#____#ASK_COM_PARAMS#__''"
  have h1: "truthy (pwd ?a)" by (simp add: srv_eval)
  have h2: "\<not> authorized ?s" by (simp add: srv_eval)
  have h3: "running ?s" by (simp add: srv_eval)
  have h4: "?c \<noteq> []" by simp
  have f: "encode (srv_params ?a) = Some ''__#COM_PARAMS_SRV-A 9600 8N1N#__''"
    by (simp add: srv_eval)
  have d: "packet_buffer ?s @ ?c = ?c" by (simp add: srv_eval)
  have c: "contains GETVER_CMD ?c" "contains GET_KA_TIMEOUT_CMD ?c" "contains ASK_CMD ?c"
    by (simp_all add: srv_eval)
  have k: "str_int (keepalive ?a) = ''120''" by (simp add: srv_eval)
  note r = queries_answered_before_auth[OF h1 h2 h3 h4,
      of "''__#COM_PARAMS_SRV-A 9600 8N1N#__''", unfolded d]
  have r1: "Send ''__#SRV_VER_0.0.53#__'' \<in> set (new_effects ?s (srv_recv ?a ?c ?s))"
    using r c(1) by blast
  have "Send (''__#MY_KA_TIMEOUT_'' @ str_int (keepalive ?a) @ ''#__'')
          \<in> set (new_effects ?s (srv_recv ?a ?c ?s))"
    using r c(2) by blast
  then have r2: "Send ''__#MY_KA_TIMEOUT_120#__'' \<in> set (new_effects ?s (srv_recv ?a ?c ?s))"
    by (simp only: k append.simps)
  have r3: "Send ''__#COM_PARAMS_SRV-A 9600 8N1N#__''
              \<in> set (new_effects ?s (srv_recv ?a ?c ?s))"
    using r c(3) f by blast
  show ?thesis using h1 h2 h3 f r1 r2 r3 by blast
qed


text \<open>
  C10 (a password that contains \<open>#\<close> never authenticates).  The password that the server
  compares is cut at the first \<open>#\<close>.  So with a configured password that contains \<open>#\<close> no
  session ever becomes authorized, whatever is received; and every chunk that brings a
  \<open>PWD_\<close> frame to the password check is answered with \<open>BADPWD\<close>, a sleep of 500 ms and the end
  of the receive loop (\<open>fr\<close> is the encoded \<open>COM_PARAMS_\<close> frame).
\<close>

theorem hash_password_never_authenticates:
  assumes "pwd a = Some p" and "of_char CHR ''#'' \<in> set p"
  shows "\<not> authorized (srv_run a evs (srv_accept a i j))
       \<and> (running s \<and> chunk \<noteq> [] \<and> contains ''__#PWD_'' (packet_buffer s @ chunk)
            \<and> contains ''#__'' (packet_buffer s @ chunk) \<and> encode (srv_params a) = Some fr
          \<longrightarrow> \<not> running (srv_recv a chunk s)
              \<and> suffix [Log Invalid_Password, Send BAD_PWD_MSG, Sleep 500]
                  (trace (srv_recv a chunk s)))"
proof -
  have t: "truthy (pwd a)" by (rule hash_pwd_truthy[OF assms])
  have 1: "\<not> authorized (srv_run a evs (srv_accept a i j))"
    using srv_run_hash_auth[OF assms, of evs "srv_accept a i j"] t by (simp add: srv_accept_def)
  have 2: "\<not> running (srv_recv a chunk s)
           \<and> suffix [Log Invalid_Password, Send BAD_PWD_MSG, Sleep 500] (trace (srv_recv a chunk s))"
    if h: "running s" "chunk \<noteq> []" "contains ''__#PWD_'' (packet_buffer s @ chunk)"
      "contains ''#__'' (packet_buffer s @ chunk)" "encode (srv_params a) = Some fr"
  proof -
    let ?d = "packet_buffer s @ chunk"
    obtain x where x: "received_pwd (decode_replace ?d) = Some x" "of_char CHR ''#'' \<notin> set x"
      using received_pwd_exists[OF h(3)] by blast
    then have ne: "Some x \<noteq> pwd a" using assms by auto
    show ?thesis
      unfolding srv_recv_pwd[OF h]
      by (simp add: on_pwd_mismatch[OF h(3) x(1) ne] suffix_def)
  qed
  from 1 2 show ?thesis by blast
qed

theorem hash_password_never_authenticates_witness:
  "pwd (example_args (Some (u ''a#b'')) False) = Some (u ''a#b'')
   \<and> of_char CHR ''#'' \<in> set (u ''a#b'')
   \<and> \<not> authorized (srv_run (example_args (Some (u ''a#b'')) False)
         [NetRecv ''__#BR_VER_0.0.70#__'', NetRecv ''__#PWD_a#b#__'']
         (srv_accept (example_args (Some (u ''a#b'')) False) 0 0))
   \<and> \<not> running (srv_recv (example_args (Some (u ''a#b'')) False) ''__#PWD_a#b#__''
         (srv_accept (example_args (Some (u ''a#b'')) False) 0 0))
   \<and> suffix [Log Invalid_Password, Send BAD_PWD_MSG, Sleep 500]
         (trace (srv_recv (example_args (Some (u ''a#b'')) False) ''__#PWD_a#b#__''
            (srv_accept (example_args (Some (u ''a#b'')) False) 0 0)))"
proof -
  let ?a = "example_args (Some (u ''a#b'')) False"
  let ?s = "srv_accept ?a 0 0"
  let ?c = "''__#PWD_a#b#__''"
  have b: "packet_buffer ?s = []" by (simp add: srv_accept_def)
  have h1: "pwd ?a = Some (u ''a#b'')" by (simp add: example_args_def)
  have h2: "of_char CHR ''#'' \<in> set (u ''a#b'')" by (simp add: u_Cons)
  have p: "running ?s \<and> ?c \<noteq> [] \<and> contains ''__#PWD_'' (packet_buffer ?s @ ?c)
           \<and> contains ''#__'' (packet_buffer ?s @ ?c)
           \<and> encode (srv_params ?a) = Some ''__#COM_PARAMS_SRV-A 9600 8N1N#__''"
    unfolding b by (simp add: srv_eval)
  note r = hash_password_never_authenticates[OF h1 h2,
      of "[NetRecv ''__#BR_VER_0.0.70#__'', NetRecv ''__#PWD_a#b#__'']" 0 0 ?s ?c
         "''__#COM_PARAMS_SRV-A 9600 8N1N#__''"]
  from r have r1: "\<not> authorized (srv_run ?a
      [NetRecv ''__#BR_VER_0.0.70#__'', NetRecv ''__#PWD_a#b#__''] ?s)" by (rule conjunct1)
  from r p have r2: "\<not> running (srv_recv ?a ?c ?s)
      \<and> suffix [Log Invalid_Password, Send BAD_PWD_MSG, Sleep 500] (trace (srv_recv ?a ?c ?s))"
    by blast
  show ?thesis using h1 h2 r1 r2 by blast
qed

end
